theory Spec2Isabelle
  imports Complex_Main
begin

section \<open>One-electron integrals and orthonormalisation in ChronusQ\<close>

text \<open>
  The development embeds \<^verbatim>\<open>src/aointegrals/aointegrals_builders.cxx\<close>
  (\<^verbatim>\<open>OneEDriver\<close>, \<^verbatim>\<open>computeAOOneE\<close>, \<^verbatim>\<open>computeOrtho\<close>) and the allocating
  overload of \<^verbatim>\<open>LU\<close> from \<^verbatim>\<open>include/cqlinalg/factorization.hpp\<close>.
  A \<^verbatim>\<open>double\<close> is an exact \<^typ>\<open>real\<close>: rounding is outside the model.
  A \<^verbatim>\<open>size_t\<close> or \<^verbatim>\<open>int\<close> that counts basis functions is a \<^typ>\<open>nat\<close>.
  Undefined behaviour of the C++ (a read through a dangling pointer, a read past the
  end of a buffer, a dereferenced end iterator) is the result \<^term>\<open>None\<close>.
\<close>

subsection \<open>The memory manager\<close>

text \<open>
  Modelled from the spec: \<^verbatim>\<open>CQMemManager\<close> is used by the sources but its code is not
  among them. The spec describes an allocator service with \<^verbatim>\<open>allocate<T>(count)\<close> and
  \<^verbatim>\<open>release(ptr...)\<close>. A heap is the list of all blocks ever handed out; a pointer is
  an index into that list, so a block returned by \<open>malloc\<close> never aliases an earlier
  one; a released block is \<^term>\<open>None\<close>. The content of a fresh block is arbitrary
  (the argument \<open>junk\<close>).
\<close>

type_synonym 'a heap = "'a list option list"

definition malloc :: "nat \<Rightarrow> (nat \<Rightarrow> 'a) \<Rightarrow> 'a heap \<Rightarrow> nat \<times> 'a heap" where
  "malloc n junk h = (length h, h @ [Some (map junk [0..<n])])"

definition free :: "nat \<Rightarrow> 'a heap \<Rightarrow> 'a heap" where
  "free p h = h[p := None]"

definition load :: "'a heap \<Rightarrow> nat \<Rightarrow> 'a list option" where
  "load h p = (if p < length h then h ! p else None)"

definition store :: "nat \<Rightarrow> 'a list \<Rightarrow> 'a heap \<Rightarrow> 'a heap" where
  "store p xs h = h[p := Some xs]"

definition live :: "'a heap \<Rightarrow> nat set" where
  "live h = {p. p < length h \<and> h ! p \<noteq> None}"

subsection \<open>Loops and the standard algorithms\<close>

text \<open>\<^verbatim>\<open>for (i = lo; i < hi; i++) body\<close> over a state.\<close>

definition for_range :: "nat \<Rightarrow> nat \<Rightarrow> (nat \<Rightarrow> 's \<Rightarrow> 's) \<Rightarrow> 's \<Rightarrow> 's" where
  "for_range lo hi body s = fold body [lo..<hi] s"

text \<open>\<^verbatim>\<open>std::fill_n(p, n, v)\<close> and \<^verbatim>\<open>std::copy_n(src, n, dst)\<close> on buffers.\<close>

definition fill_n :: "'a list \<Rightarrow> nat \<Rightarrow> 'a \<Rightarrow> 'a list" where
  "fill_n p n v = for_range 0 n (\<lambda>k b. b[k := v]) p"

definition copy_n :: "'a list \<Rightarrow> nat \<Rightarrow> 'a list \<Rightarrow> 'a list" where
  "copy_n src n dst = for_range 0 n (\<lambda>k b. b[k := src ! k]) dst"

subsection \<open>The linear-algebra kernels\<close>

text \<open>
  Modelled from the spec: \<^verbatim>\<open>Gemm\<close> wraps the BLAS routine \<^verbatim>\<open>DGEMM\<close> and is not among
  the sources. \<open>C := ALPHA * op(A) * op(B) + BETA * C\<close> on column-major buffers, where
  \<open>op(X)\<close> is \<open>X\<close> for \<^verbatim>\<open>'N'\<close> and its transpose otherwise; entry \<open>(i, j)\<close> of a buffer
  with leading dimension \<open>LD\<close> is at \<open>i + j * LD\<close>. Entries of \<open>C\<close> outside the
  \<open>M \<times> N\<close> result are kept.
\<close>

definition opm :: "char \<Rightarrow> real list \<Rightarrow> nat \<Rightarrow> nat \<Rightarrow> nat \<Rightarrow> real" where
  "opm TRANS A LDA i k = (if TRANS = CHR ''N'' then A ! (i + k * LDA) else A ! (k + i * LDA))"

definition Gemm :: "char \<Rightarrow> char \<Rightarrow> nat \<Rightarrow> nat \<Rightarrow> nat \<Rightarrow> real \<Rightarrow> real list \<Rightarrow> nat \<Rightarrow>
    real list \<Rightarrow> nat \<Rightarrow> real \<Rightarrow> real list \<Rightarrow> nat \<Rightarrow> real list" where
  "Gemm TRANSA TRANSB M N K ALPHA A LDA B LDB BETA C LDC =
     for_range 0 N (\<lambda>j. for_range 0 M (\<lambda>i C'.
       C'[i + j * LDC :=
            ALPHA * (\<Sum>l<K. opm TRANSA A LDA i l * opm TRANSB B LDB l j)
              + BETA * C' ! (i + j * LDC)])) C"

text \<open>
  Modelled from the spec: \<^verbatim>\<open>Cholesky\<close> wraps LAPACK's \<^verbatim>\<open>DPOTRF\<close>; only its
  declaration is among the sources. The spec: it factors a positive-definite \<open>n \<times> n\<close>
  matrix in place into its Cholesky factor, stored in the triangle \<open>uplo\<close> names, and
  reports a matrix that is not positive definite by a non-zero status, the index of the
  pivot where the factorisation broke down. The other triangle is never touched.

  \<open>chol S i j\<close> is entry \<open>(i, j)\<close>, \<open>j \<le> i\<close>, of the factor of the matrix whose
  lower triangle is \<open>S\<close>, computed column by column; \<open>pivot S j\<close> is the number whose
  square root is the diagonal entry of column \<open>j\<close>.
\<close>

function chol :: "(nat \<Rightarrow> nat \<Rightarrow> real) \<Rightarrow> nat \<Rightarrow> nat \<Rightarrow> real" where
  "chol S i j =
     (if i = j then sqrt (S j j - (\<Sum>k<j. chol S j k * chol S j k))
      else (S i j - (\<Sum>k<j. chol S i k * chol S j k)) / chol S j j)"
  by pat_completeness auto
termination
  by (relation "measure (\<lambda>(S, i, j). 2 * j + (if i = j then 0 else 1))") auto

definition pivot :: "(nat \<Rightarrow> nat \<Rightarrow> real) \<Rightarrow> nat \<Rightarrow> real" where
  "pivot S j = S j j - (\<Sum>k<j. chol S j k * chol S j k)"

text \<open>
  The triangle \<open>UPLO\<close> names, read as a lower triangle (\<open>view\<close>), and written back
  (\<open>put_tri\<close>): for \<^verbatim>\<open>'L'\<close> entry \<open>(i, j)\<close> with \<open>j \<le> i\<close> is at \<open>i + j * LDA\<close>, for
  \<^verbatim>\<open>'U'\<close> it is the transposed position.
\<close>

definition view :: "char \<Rightarrow> real list \<Rightarrow> nat \<Rightarrow> nat \<Rightarrow> nat \<Rightarrow> real" where
  "view UPLO A LDA i j = (if UPLO = CHR ''L'' then A ! (i + j * LDA) else A ! (j + i * LDA))"

definition put_tri :: "char \<Rightarrow> nat \<Rightarrow> nat \<Rightarrow> (nat \<Rightarrow> nat \<Rightarrow> real) \<Rightarrow> real list \<Rightarrow> real list" where
  "put_tri UPLO N LDA f A =
     map (\<lambda>k. let r = k mod LDA; c = k div LDA in
            if r < N \<and> c < N \<and> UPLO = CHR ''L'' \<and> c \<le> r then f r c
            else if r < N \<and> c < N \<and> UPLO \<noteq> CHR ''L'' \<and> r \<le> c then f c r
            else A ! k) [0..<length A]"

text \<open>
  Where the matrix is not positive definite the columns before the failing one hold the
  factor, the failing diagonal entry holds the non-positive pivot and the rest is as it
  was (the unblocked \<^verbatim>\<open>DPOTF2\<close>). An illegal argument is status \<open>-i\<close>.
\<close>

definition potrf :: "char \<Rightarrow> nat \<Rightarrow> real list \<Rightarrow> nat \<Rightarrow> int \<times> real list" where
  "potrf UPLO N A LDA =
     (if UPLO \<noteq> CHR ''L'' \<and> UPLO \<noteq> CHR ''U'' then (- 1, A)
      else if LDA < max 1 N then (- 4, A)
      else
        let S = view UPLO A LDA in
        case find (\<lambda>j. pivot S j \<le> 0) [0..<N] of
          None \<Rightarrow> (0, put_tri UPLO N LDA (chol S) A)
        | Some J \<Rightarrow>
            (int J + 1,
             put_tri UPLO N LDA
               (\<lambda>i j. if j < J then chol S i j else if i = J \<and> j = J then pivot S J else S i j) A))"

text \<open>
  Modelled from the spec: \<^verbatim>\<open>CholeskyInv\<close> wraps \<^verbatim>\<open>DPOTRI\<close>. Given the factor, it
  computes the inverse of the original matrix in place, same triangle. \<^verbatim>\<open>DPOTRI\<close>
  inverts the triangular factor (\<open>tri_inv\<close>, by forward substitution; a zero on the
  diagonal is status \<open>i\<close> and leaves the buffer) and multiplies the inverse with its
  transpose.
\<close>

function tri_inv :: "(nat \<Rightarrow> nat \<Rightarrow> real) \<Rightarrow> nat \<Rightarrow> nat \<Rightarrow> real" where
  "tri_inv L i j =
     (if i < j then 0
      else if i = j then 1 / L j j
      else - (\<Sum>k<i. L i k * tri_inv L k j) / L i i)"
  by pat_completeness auto
termination
  by (relation "measure (\<lambda>(L, i, j). i)") auto

definition potri :: "char \<Rightarrow> nat \<Rightarrow> real list \<Rightarrow> nat \<Rightarrow> int \<times> real list" where
  "potri UPLO N A LDA =
     (if UPLO \<noteq> CHR ''L'' \<and> UPLO \<noteq> CHR ''U'' then (- 1, A)
      else if LDA < max 1 N then (- 4, A)
      else
        let L = (\<lambda>i j. if i < j then 0 else view UPLO A LDA i j) in
        case find (\<lambda>i. L i i = 0) [0..<N] of
          Some i \<Rightarrow> (int i + 1, A)
        | None \<Rightarrow>
            (0, put_tri UPLO N LDA (\<lambda>i j. \<Sum>k<N. tri_inv L k i * tri_inv L k j) A))"

text \<open>
  The factorisation kernels are declared in \<^verbatim>\<open>factorization.hpp\<close> (\<^verbatim>\<open>Cholesky\<close>,
  \<^verbatim>\<open>CholeskyInv\<close>) or only called (\<^verbatim>\<open>HermetianEigen\<close>); their bodies wrap LAPACK and
  are not among the sources. \<^verbatim>\<open>computeOrtho\<close> is therefore embedded over an arbitrary
  implementation of them: each kernel maps the buffers it is handed to a status and the
  buffers it leaves behind.
\<close>

record kernels =
  Cholesky :: "char \<Rightarrow> nat \<Rightarrow> real list \<Rightarrow> nat \<Rightarrow> int \<times> real list"
  CholeskyInv :: "char \<Rightarrow> nat \<Rightarrow> real list \<Rightarrow> nat \<Rightarrow> int \<times> real list"
  HermetianEigen :: "char \<Rightarrow> char \<Rightarrow> nat \<Rightarrow> real list \<Rightarrow> nat \<Rightarrow> real list \<Rightarrow>
    int \<times> real list \<times> real list"

text \<open>
  The kernels as LAPACK has them; the eigensolver stays a parameter (its result is not
  computable by a finite recursion over the reals).
\<close>

definition lapack :: "(char \<Rightarrow> char \<Rightarrow> nat \<Rightarrow> real list \<Rightarrow> nat \<Rightarrow> real list \<Rightarrow>
    int \<times> real list \<times> real list) \<Rightarrow> kernels" where
  "lapack eig = \<lparr>Cholesky = potrf, CholeskyInv = potri, HermetianEigen = eig\<rparr>"

subsection \<open>The AOIntegrals aggregate\<close>

datatype ORTHO_TYPE = LOWDIN | CHOLESKY

text \<open>
  \<open>shsize\<close> is \<^verbatim>\<open>Shell::size()\<close>, \<open>shl\<close> is \<^verbatim>\<open>contr[0].l\<close> and \<open>nprim\<close> is
  \<^verbatim>\<open>alpha.size()\<close>.
\<close>

record Shell =
  shl :: nat
  nprim :: nat
  shsize :: nat

record AOIntegrals =
  memManager :: "real heap"
  shells :: "Shell list"
  atoms :: "(nat \<times> real \<times> real \<times> real) list"
  nBasis :: nat
  nSQ :: nat
  orthoType :: ORTHO_TYPE
  overlap :: nat
  kinetic :: nat
  potential :: nat
  lenElecDipole :: "nat list"
  lenElecQuadrupole :: "nat list"
  lenElecOctupole :: "nat list"
  coreH :: "nat list"
  ortho1 :: nat
  ortho2 :: nat

subsection \<open>computeOrtho\<close>

text \<open>
  The Lowdin branch, on the buffers \<open>(ortho1, ortho2, SCR1)\<close> and the heap (it
  allocates and releases \<open>sE\<close> and \<open>SCR2\<close>). The status of \<^verbatim>\<open>HermetianEigen\<close> is
  dropped, as in the source.
\<close>

definition lowdin_branch :: "kernels \<Rightarrow> (nat \<Rightarrow> real) \<Rightarrow> nat \<Rightarrow> nat \<Rightarrow>
    real list \<times> real list \<times> real list \<times> real heap \<Rightarrow>
    real list \<times> real list \<times> real list \<times> real heap" where
  "lowdin_branch K junk n nsq = (\<lambda>(O1, O2, SCR1, h).
     let (sEp, h) = malloc n junk h;
         (SCR2p, h) = malloc nsq junk h;
         sE = map junk [0..<n];
         SCR2 = map junk [0..<nsq];
         (INFO, SCR1, sE) = HermetianEigen K (CHR ''V'') (CHR ''U'') n SCR1 n sE;
         SCR2 = for_range 0 n (\<lambda>j. for_range 0 n (\<lambda>i SCR2.
                  SCR2[i + j * n := SCR1 ! (i + j * n) / sqrt (sE ! j)])) SCR2;
         O1 = Gemm (CHR ''N'') (CHR ''T'') n n n 1 SCR2 n SCR1 n 0 O1 n;
         SCR2 = for_range 0 n (\<lambda>j. for_range 0 n (\<lambda>i SCR2.
                  SCR2[i + j * n := SCR2 ! (i + j * n) * sE ! j])) SCR2;
         O2 = Gemm (CHR ''N'') (CHR ''T'') n n n 1 SCR2 n SCR1 n 0 O2 n;
         h = free SCR2p (free sEp h)
     in (O1, O2, SCR1, h))"

text \<open>
  The Cholesky branch. Neither status is looked at: the source calls both kernels as
  statements.
\<close>

definition cholesky_branch :: "kernels \<Rightarrow> nat \<Rightarrow>
    real list \<times> real list \<times> real list \<times> real heap \<Rightarrow>
    real list \<times> real list \<times> real list \<times> real heap" where
  "cholesky_branch K n = (\<lambda>(O1, O2, SCR1, h).
     let (INFO, SCR1) = Cholesky K (CHR ''L'') n SCR1 n;
         O2 = for_range 0 n (\<lambda>j. for_range j n (\<lambda>i O2.
                O2[i + j * n := SCR1 ! (i + j * n)])) O2;
         (INFO, SCR1) = CholeskyInv K (CHR ''L'') n SCR1 n;
         O1 = Gemm (CHR ''T'') (CHR ''N'') n n n 1 O2 n SCR1 n 0 O1 n;
         O1 = for_range 0 n (\<lambda>j. for_range 0 j (\<lambda>i O1.
                O1[i + j * n := 0])) O1
     in (O1, O2, SCR1, h))"

text \<open>
  \<^verbatim>\<open>AOIntegrals::computeOrtho\<close>. The three buffers are allocated, \<open>ortho1\<close> and
  \<open>ortho2\<close> are zeroed, the overlap is copied into \<open>SCR1\<close>, \<open>orthoType_\<close> is
  assigned \<open>CHOLESKY\<close>, the branch runs, and \<open>SCR1\<close> is released. The read of
  \<open>nSQ_\<close> entries through \<open>overlap\<close> needs a live block of at least that length, and
  the branches address entries up to \<open>nBasis * nBasis\<close> of each buffer.
\<close>

definition computeOrtho :: "kernels \<Rightarrow> (nat \<Rightarrow> real) \<Rightarrow> AOIntegrals \<Rightarrow> AOIntegrals option" where
  "computeOrtho K junk s =
     (let h = memManager s;
          (ortho1p, h) = malloc (nSQ s) junk h;
          (ortho2p, h) = malloc (nSQ s) junk h;
          O1 = fill_n (map junk [0..<nSQ s]) (nSQ s) 0;
          O2 = fill_n (map junk [0..<nSQ s]) (nSQ s) 0;
          (SCR1p, h) = malloc (nSQ s) junk h
      in case load (memManager s) (overlap s) of
           None \<Rightarrow> None
         | Some S \<Rightarrow>
             if length S < nSQ s \<or> nSQ s < nBasis s * nBasis s then None
             else
               let SCR1 = copy_n S (nSQ s) (map junk [0..<nSQ s]);
                   s = s\<lparr>ortho1 := ortho1p, ortho2 := ortho2p, orthoType := CHOLESKY\<rparr>;
                   (O1, O2, SCR1, h) =
                     (if orthoType s = LOWDIN
                        then lowdin_branch K junk (nBasis s) (nSQ s) (O1, O2, SCR1, h)
                      else if orthoType s = CHOLESKY
                        then cholesky_branch K (nBasis s) (O1, O2, SCR1, h)
                      else (O1, O2, SCR1, h));
                   h = store ortho2p O2 (store ortho1p O1 h);
                   h = free SCR1p h
               in Some (s\<lparr>memManager := h\<rparr>))"

subsection \<open>OneEDriver\<close>

text \<open>
  The integral engine is libint2, an external library: \<open>nopers\<close> is the number of
  result buffers of an engine for an operator (\<^verbatim>\<open>engines[0].results().size()\<close>; the
  doc comment of \<^verbatim>\<open>OneEDriver\<close> gives the 20 components of \<^verbatim>\<open>emultipole3\<close> in order,
  and one for the kinetic and the nuclear operator), and \<^verbatim>\<open>Engine::compute\<close> is a
  parameter of the embedding: for an engine and two shells it gives, per component, a
  null pointer (\<^term>\<open>None\<close>) or a buffer (read as \<open>buf k\<close> for \<^verbatim>\<open>buf[k]\<close>).
\<close>

datatype Operator = emultipole3 | kinetic_op | nuclear_op

fun nopers :: "Operator \<Rightarrow> nat" where
  "nopers emultipole3 = 20"
| "nopers kinetic_op = 1"
| "nopers nuclear_op = 1"

record Engine =
  oper :: Operator
  max_nprim :: nat
  max_l :: nat
  deriv_order :: nat
  precision :: real
  params :: "(real \<times> real \<times> real \<times> real) list"

type_synonym engine_compute = "Engine \<Rightarrow> Shell \<Rightarrow> Shell \<Rightarrow> nat \<Rightarrow> (nat \<Rightarrow> real) option"

text \<open>
  Eigen: \<^verbatim>\<open>matMaps[iMat].block(bf1_s,bf2_s,n1,n2) = bufMat\<close>, where \<open>bufMat\<close> reads
  \<open>buf\<close> as a row-major \<open>n1 \<times> n2\<close> matrix and the destination is column-major
  \<open>NB \<times> NB\<close>; and \<^verbatim>\<open>M = M.selfadjointView<Eigen::Lower>()\<close>, which keeps the lower
  triangle and writes its reflection into the strict upper triangle.
\<close>

definition place_block :: "nat \<Rightarrow> nat \<Rightarrow> nat \<Rightarrow> nat \<Rightarrow> nat \<Rightarrow> (nat \<Rightarrow> real) \<Rightarrow> real list \<Rightarrow> real list" where
  "place_block NB bf1_s bf2_s n1 n2 buf M =
     map (\<lambda>k. let i = k mod NB; j = k div NB in
            if bf1_s \<le> i \<and> i < bf1_s + n1 \<and> bf2_s \<le> j \<and> j < bf2_s + n2
            then buf ((i - bf1_s) * n2 + (j - bf2_s)) else M ! k) [0..<length M]"

definition selfadjoint_lower :: "nat \<Rightarrow> real list \<Rightarrow> real list" where
  "selfadjoint_lower NB M =
     map (\<lambda>k. let i = k mod NB; j = k div NB in
            if i < j \<and> j < NB then M ! (j + i * NB) else M ! k) [0..<length M]"

text \<open>
  The loop over \<open>iMat\<close>: a null buffer after a non-null first one would be read
  through, which is undefined.
\<close>

definition place_blocks :: "nat \<Rightarrow> nat \<Rightarrow> nat \<Rightarrow> nat \<Rightarrow> nat \<Rightarrow> (nat \<Rightarrow> (nat \<Rightarrow> real) option) \<Rightarrow>
    real list list \<Rightarrow> real list list option" where
  "place_blocks NB bf1_s bf2_s n1 n2 buf_vec mats =
     for_range 0 (length mats) (\<lambda>iMat acc.
       case acc of None \<Rightarrow> None
       | Some ms \<Rightarrow>
           (case buf_vec iMat of None \<Rightarrow> None
            | Some buf \<Rightarrow> Some (ms[iMat := place_block NB bf1_s bf2_s n1 n2 buf (ms ! iMat)])))
       (Some mats)"

text \<open>
  The body of the loop over \<open>s2\<close> (with its increment \<open>bf2_s += n2\<close>) and the body
  of the loop over \<open>s1\<close> (with \<open>bf1_s += n1\<close>). A screened pair (\<open>buf_vec[0]\<close> null)
  is skipped by \<^verbatim>\<open>continue\<close>. The counter \<open>s12\<close> is never read and is left out.
\<close>

definition pair_step :: "engine_compute \<Rightarrow> Engine \<Rightarrow> Shell list \<Rightarrow> nat \<Rightarrow> nat \<Rightarrow> nat \<Rightarrow> nat \<Rightarrow>
    nat \<Rightarrow> nat \<times> real list list option \<Rightarrow> nat \<times> real list list option" where
  "pair_step compute engine shs NB s1 bf1_s n1 s2 = (\<lambda>(bf2_s, acc).
     let n2 = shsize (shs ! s2);
         acc = (case acc of None \<Rightarrow> None
                | Some mats \<Rightarrow>
                    let buf_vec = compute engine (shs ! s1) (shs ! s2) in
                    if mats = [] then None
                    else if buf_vec 0 = None then Some mats
                    else place_blocks NB bf1_s bf2_s n1 n2 buf_vec mats)
     in (bf2_s + n2, acc))"

definition row_step :: "engine_compute \<Rightarrow> Engine \<Rightarrow> Shell list \<Rightarrow> nat \<Rightarrow> nat \<Rightarrow>
    nat \<times> real list list option \<Rightarrow> nat \<times> real list list option" where
  "row_step compute engine shs NB s1 = (\<lambda>(bf1_s, acc).
     let n1 = shsize (shs ! s1);
         (bf2_s, acc) = for_range 0 (Suc s1) (pair_step compute engine shs NB s1 bf1_s n1) (0, acc)
     in (bf1_s + n1, acc))"

definition shell_pairs :: "engine_compute \<Rightarrow> Engine \<Rightarrow> Shell list \<Rightarrow> nat \<Rightarrow> real list list \<Rightarrow>
    real list list option" where
  "shell_pairs compute engine shs NB mats =
     snd (for_range 0 (length shs) (row_step compute engine shs NB) (0, Some mats))"

text \<open>
  \<^verbatim>\<open>AOIntegrals::OneEDriver\<close>. The first engine is built from the operator, the largest
  contraction depth and the largest angular momentum, with precision \<open>0\<close> and, for the
  nuclear operator, the charges and positions of the atoms; the other threads get copies.
  \<^verbatim>\<open>std::max_element\<close> of an empty shell set is the end
  iterator, which the source dereferences. Every thread of the parallel region runs the
  whole loop nest with an engine of its own copied from the first and writes the same
  values, so one run of the nest gives the buffers. The \<open>matMaps\<close> are views of the
  allocated blocks: their contents are kept as values while the loops run and are in the
  blocks when the function returns.
\<close>

definition first_engine :: "Operator \<Rightarrow> Shell list \<Rightarrow> (nat \<times> real \<times> real \<times> real) list \<Rightarrow> Engine" where
  "first_engine op shs atms =
     (let maxL = fold max (map shl (tl shs)) (shl (hd shs));
          maxPrim = fold max (map nprim (tl shs)) (nprim (hd shs))
      in \<lparr>oper = op, max_nprim = maxPrim, max_l = maxL, deriv_order = 0, precision = 0,
          params = (if op = nuclear_op
                    then map (\<lambda>(Z, x, y, z). (real Z, x, y, z)) atms else [])\<rparr>)"

definition OneEDriver :: "engine_compute \<Rightarrow> (nat \<Rightarrow> real) \<Rightarrow> (nat \<times> real \<times> real \<times> real) list \<Rightarrow>
    Operator \<Rightarrow> Shell list \<Rightarrow> real heap \<Rightarrow> (nat list \<times> real heap) option" where
  "OneEDriver compute junk atms op shs h =
     (let NB = fold (\<lambda>sh init. init + shsize sh) shs 0;
          NBSQ = NB * NB
      in if shs = [] then None
         else
           let engine = first_engine op shs atms;
               (mats, matMaps, h) =
                 for_range 0 (nopers op) (\<lambda>i (mats, matMaps, h).
                   let (p, h) = malloc NBSQ junk h;
                       M = fill_n (map junk [0..<NBSQ]) NBSQ 0
                   in (mats @ [p], matMaps @ [M], store p M h)) ([], [], h)
           in case shell_pairs compute engine shs NB matMaps of
                None \<Rightarrow> None
              | Some matMaps \<Rightarrow>
                  let matMaps = map (selfadjoint_lower NB) matMaps;
                      h = fold (\<lambda>(p, M) h. store p M h) (zip mats matMaps) h
                  in Some (mats, h))"

subsection \<open>computeAOOneE\<close>

text \<open>
  \<^verbatim>\<open>#pragma omp parallel for schedule(static,chunk)\<close> over \<open>0 \<le> i < n\<close> with \<open>T\<close>
  threads: chunk \<open>c\<close> of the iterations goes to thread \<open>c mod T\<close>. The iterations of
  the loop below touch disjoint entries, so the buffer they leave is that of the threads
  run one after the other. A chunk size of zero is not a conforming program.
\<close>

definition static_schedule :: "nat \<Rightarrow> nat \<Rightarrow> nat \<Rightarrow> nat list" where
  "static_schedule T chunk n =
     concat (map (\<lambda>t. filter (\<lambda>i. (i div chunk) mod T = t) [0..<n]) [0..<T])"

text \<open>
  \<open>omp\<close> is \<^term>\<open>None\<close> for a build without OpenMP, else the value of
  \<^verbatim>\<open>omp_get_max_threads()\<close>.
\<close>

definition iteration_order :: "nat option \<Rightarrow> nat \<Rightarrow> nat list option" where
  "iteration_order omp n =
     (case omp of
        None \<Rightarrow> Some [0..<n]
      | Some T \<Rightarrow>
          if T = 0 \<or> 2 * n div T = 0 then None
          else Some (static_schedule T (2 * n div T) n))"

text \<open>
  \<^verbatim>\<open>AOIntegrals::computeAOOneE\<close>. \<^verbatim>\<open>std::copy_n\<close> from \<open>_multipole\<close> reads twenty
  pointers; the sum reads \<open>nSQ_\<close> entries of the kinetic and the potential buffer.
\<close>

definition computeAOOneE :: "engine_compute \<Rightarrow> kernels \<Rightarrow> (nat \<Rightarrow> real) \<Rightarrow> nat option \<Rightarrow>
    AOIntegrals \<Rightarrow> AOIntegrals option" where
  "computeAOOneE compute K junk omp s =
     (case OneEDriver compute junk (atoms s) emultipole3 (shells s) (memManager s) of
        None \<Rightarrow> None
      | Some (multipole, h) \<Rightarrow>
     (case OneEDriver compute junk (atoms s) kinetic_op (shells s) h of
        None \<Rightarrow> None
      | Some (kin, h) \<Rightarrow>
     (case OneEDriver compute junk (atoms s) nuclear_op (shells s) h of
        None \<Rightarrow> None
      | Some (pot, h) \<Rightarrow>
          if length multipole < 20 \<or> kin = [] \<or> pot = [] then None
          else
            let s = s\<lparr>overlap := multipole ! 0,
                      lenElecDipole := lenElecDipole s @ take 3 (drop 1 multipole),
                      lenElecQuadrupole := lenElecQuadrupole s @ take 6 (drop 4 multipole),
                      lenElecOctupole := lenElecOctupole s @ take 10 (drop 10 multipole),
                      kinetic := kin ! 0,
                      potential := pot ! 0\<rparr>;
                (p, h) = malloc (nSQ s) junk h;
                s = s\<lparr>coreH := coreH s @ [p]\<rparr>;
                H = fill_n (map junk [0..<nSQ s]) (nSQ s) 0
            in case (load h (kinetic s), load h (potential s), iteration_order omp (nSQ s)) of
                 (Some T, Some V, Some order) \<Rightarrow>
                   if length T < nSQ s \<or> length V < nSQ s then None
                   else
                     let H = fold (\<lambda>i H. H[i := T ! i + V ! i]) order H
                     in computeOrtho K junk (s\<lparr>memManager := store (last (coreH s)) H h\<rparr>)
               | _ \<Rightarrow> None)))"

subsection \<open>The allocating overload of LU\<close>

text \<open>
  \<^verbatim>\<open>LU(M,N,A,LDA,IPIV)\<close> is declared only (it wraps \<^verbatim>\<open>DGETRF\<close>): a parameter that maps
  the matrix and the pivot array it is handed to a status and what it leaves in both.
  The overload allocates \<^verbatim>\<open>std::min(M,N)\<close> pivots; a negative \<^verbatim>\<open>int\<close> there converts
  to a \<^verbatim>\<open>size_t\<close> beyond any allocation, for which the overload does not return.
\<close>

type_synonym 'f lu_kernel = "int \<Rightarrow> int \<Rightarrow> 'f list \<Rightarrow> int \<Rightarrow> int list \<Rightarrow> int \<times> 'f list \<times> int list"

definition LU_mem :: "'f lu_kernel \<Rightarrow> (nat \<Rightarrow> int) \<Rightarrow> int \<Rightarrow> int \<Rightarrow> 'f list \<Rightarrow> int \<Rightarrow> int heap \<Rightarrow>
    (int \<times> 'f list \<times> int heap) option" where
  "LU_mem LU junk M N A LDA mem =
     (if min M N < 0 then None
      else
        let (IPIV, mem) = malloc (nat (min M N)) junk mem
        in case load mem IPIV of
             None \<Rightarrow> None
           | Some piv \<Rightarrow>
               let (INFO, A, piv) = LU M N A LDA piv;
                   mem = store IPIV piv mem;
                   mem = free IPIV mem
               in Some (INFO, A, mem))"

subsection \<open>Vocabulary of the statements\<close>

text \<open>
  \<open>offs shs s\<close> is the index of the first basis function of shell \<open>s\<close>;
  \<open>in_block\<close> says that the flat index \<open>k\<close> of an \<open>NB \<times> NB\<close> column-major buffer
  lies in the block of \<open>n1\<close> rows from \<open>bf1\<close> and \<open>n2\<close> columns from \<open>bf2\<close>.
\<close>

definition offs :: "Shell list \<Rightarrow> nat \<Rightarrow> nat" where
  "offs shs s = (\<Sum>k<s. shsize (shs ! k))"

definition in_block :: "nat \<Rightarrow> nat \<Rightarrow> nat \<Rightarrow> nat \<Rightarrow> nat \<Rightarrow> nat \<Rightarrow> bool" where
  "in_block NB bf1 bf2 n1 n2 k =
     (bf1 \<le> k mod NB \<and> k mod NB < bf1 + n1 \<and> bf2 \<le> k div NB \<and> k div NB < bf2 + n2)"

text \<open>
  The first \<open>i\<close> matrices of \<open>ms\<close> with the block of a shell pair written; an index no
  unscreened pair writes; an accumulator that has kept those entries; an engine that
  never hands out a null buffer after a non-null first one.
\<close>

definition placed :: "nat \<Rightarrow> nat \<Rightarrow> nat \<Rightarrow> nat \<Rightarrow> nat \<Rightarrow> (nat \<Rightarrow> (nat \<Rightarrow> real) option) \<Rightarrow>
    real list list \<Rightarrow> nat \<Rightarrow> real list list" where
  "placed NB bf1 bf2 n1 n2 bv ms i =
     map (\<lambda>m. if m < i then place_block NB bf1 bf2 n1 n2 (the (bv m)) (ms ! m) else ms ! m)
       [0..<length ms]"

definition untouched :: "engine_compute \<Rightarrow> Engine \<Rightarrow> Shell list \<Rightarrow> nat \<Rightarrow> nat \<Rightarrow> bool" where
  "untouched compute engine shs NB k =
     (\<forall>s1<length shs. \<forall>s2\<le>s1. compute engine (shs ! s1) (shs ! s2) 0 \<noteq> None \<longrightarrow>
        \<not> in_block NB (offs shs s1) (offs shs s2) (shsize (shs ! s1)) (shsize (shs ! s2)) k)"

definition keeps :: "real list list \<Rightarrow> (nat \<Rightarrow> bool) \<Rightarrow> real list list option \<Rightarrow> bool" where
  "keeps ms0 U acc =
     (\<forall>ms. acc = Some ms \<longrightarrow> length ms = length ms0 \<and>
        (\<forall>m<length ms0. length (ms ! m) = length (ms0 ! m) \<and>
           (\<forall>k<length (ms0 ! m). U k \<longrightarrow> ms ! m ! k = ms0 ! m ! k)))"

definition engine_ok :: "engine_compute \<Rightarrow> Engine \<Rightarrow> Shell list \<Rightarrow> nat \<Rightarrow> bool" where
  "engine_ok compute engine shs nm =
     (\<forall>s1<length shs. \<forall>s2\<le>s1. compute engine (shs ! s1) (shs ! s2) 0 \<noteq> None \<longrightarrow>
        (\<forall>m<nm. compute engine (shs ! s1) (shs ! s2) m \<noteq> None))"

text \<open>
  An accumulator in which the block of a shell pair holds, in every matrix \<open>m\<close>, result
  buffer \<open>m\<close> of the engine for that pair; and a matrix assembled from result buffer
  \<open>m\<close>: on and below the diagonal the block of every pair \<open>s2 \<le> s1\<close> holds that
  buffer read row-major, or zero when the engine screens the pair, and the entries above
  the diagonal are the reflection.
\<close>

definition written :: "nat \<Rightarrow> nat \<Rightarrow> nat \<Rightarrow> nat \<Rightarrow> nat \<Rightarrow> (nat \<Rightarrow> (nat \<Rightarrow> real) option) \<Rightarrow>
    real list list option \<Rightarrow> bool" where
  "written NB bf1 bf2 n1 n2 bv acc =
     (\<forall>ms. acc = Some ms \<longrightarrow>
        (\<forall>m<length ms. \<exists>buf. bv m = Some buf \<and>
           (\<forall>k<length (ms ! m). in_block NB bf1 bf2 n1 n2 k \<longrightarrow>
              ms ! m ! k = buf ((k mod NB - bf1) * n2 + (k div NB - bf2)))))"

definition assembled :: "engine_compute \<Rightarrow> Engine \<Rightarrow> Shell list \<Rightarrow> nat \<Rightarrow> real list \<Rightarrow> bool" where
  "assembled compute engine shs m M =
     (length M = offs shs (length shs) * offs shs (length shs) \<and>
      (\<forall>s1<length shs. \<forall>s2\<le>s1. \<forall>r<shsize (shs ! s1). \<forall>c<shsize (shs ! s2).
         s2 < s1 \<or> c \<le> r \<longrightarrow>
           (if compute engine (shs ! s1) (shs ! s2) 0 = None
            then M ! ((offs shs s1 + r) + (offs shs s2 + c) * offs shs (length shs)) = 0 \<and>
                 M ! ((offs shs s2 + c) + (offs shs s1 + r) * offs shs (length shs)) = 0
            else \<exists>buf. compute engine (shs ! s1) (shs ! s2) m = Some buf \<and>
                 M ! ((offs shs s1 + r) + (offs shs s2 + c) * offs shs (length shs)) =
                   buf (r * shsize (shs ! s2) + c) \<and>
                 M ! ((offs shs s2 + c) + (offs shs s1 + r) * offs shs (length shs)) =
                   buf (r * shsize (shs ! s2) + c))))"

subsection \<open>Example inputs\<close>

text \<open>
  The spec's scenario: two shells of one function each with overlap
  \<open>[[1, 0.5], [0.5, 1]]\<close>; and a basis of one function whose overlap \<open>[-1]\<close> is
  not positive definite.
\<close>

definition ex_overlap :: "real list" where
  "ex_overlap = [1, 1/2, 1/2, 1]"

definition ex_state :: AOIntegrals where
  "ex_state = \<lparr>memManager = [Some ex_overlap, Some [2, 0, 0, 2], Some [-3, 1, 1, -3], Some [-1, 1, 1, -1]],
     shells = [\<lparr>shl = 0, nprim = 1, shsize = 1\<rparr>, \<lparr>shl = 0, nprim = 1, shsize = 1\<rparr>],
     atoms = [(1, 0, 0, 0)], nBasis = 2, nSQ = 4, orthoType = LOWDIN,
     overlap = 0, kinetic = 1, potential = 2,
     lenElecDipole = [], lenElecQuadrupole = [], lenElecOctupole = [],
     coreH = [3], ortho1 = 0, ortho2 = 0\<rparr>"

definition ex_indefinite :: AOIntegrals where
  "ex_indefinite = \<lparr>memManager = [Some [- 1]],
     shells = [\<lparr>shl = 0, nprim = 1, shsize = 1\<rparr>],
     atoms = [(1, 0, 0, 0)], nBasis = 1, nSQ = 1, orthoType = CHOLESKY,
     overlap = 0, kinetic = 0, potential = 0,
     lenElecDipole = [], lenElecQuadrupole = [], lenElecOctupole = [],
     coreH = [], ortho1 = 0, ortho2 = 0\<rparr>"

text \<open>
  A basis of an s shell and a p shell (four functions), an engine that screens every pair
  of shells of different angular momentum, a molecule over that basis, and an \<open>LU\<close>
  kernel that reports a singular matrix.
\<close>

definition lu_singular :: "real lu_kernel" where
  "lu_singular M N A LDA IPIV = (1, A, map (\<lambda>_. 1) IPIV)"

definition ex_shells :: "Shell list" where
  "ex_shells = [\<lparr>shl = 0, nprim = 3, shsize = 1\<rparr>, \<lparr>shl = 1, nprim = 3, shsize = 3\<rparr>]"

definition ex_compute :: engine_compute where
  "ex_compute e sh1 sh2 m =
     (if shl sh1 \<noteq> shl sh2 then None else Some (\<lambda>k. real (Suc m) + real k / 10))"

definition ex_mol :: AOIntegrals where
  "ex_mol = \<lparr>memManager = [], shells = ex_shells, atoms = [(1, 0, 0, 0)], nBasis = 4, nSQ = 16,
     orthoType = CHOLESKY, overlap = 0, kinetic = 0, potential = 0,
     lenElecDipole = [], lenElecQuadrupole = [], lenElecOctupole = [],
     coreH = [], ortho1 = 0, ortho2 = 0\<rparr>"

subsection \<open>Buffers read as matrices\<close>

text \<open>
  A buffer with leading dimension \<open>n\<close> read as a column-major matrix, the product,
  transpose and unit of \<open>n \<times> n\<close> matrices, equality on the \<open>n \<times> n\<close> entries, lower
  triangular matrices, symmetric positive-definite matrices and the lower triangle of a
  matrix.
\<close>

definition mat :: "nat \<Rightarrow> real list \<Rightarrow> nat \<Rightarrow> nat \<Rightarrow> real" where
  "mat n A i j = A ! (i + j * n)"

definition mm :: "nat \<Rightarrow> (nat \<Rightarrow> nat \<Rightarrow> real) \<Rightarrow> (nat \<Rightarrow> nat \<Rightarrow> real) \<Rightarrow> nat \<Rightarrow> nat \<Rightarrow> real" where
  "mm n A B i j = (\<Sum>k<n. A i k * B k j)"

definition transp :: "(nat \<Rightarrow> nat \<Rightarrow> real) \<Rightarrow> nat \<Rightarrow> nat \<Rightarrow> real" where
  "transp A i j = A j i"

definition ident :: "nat \<Rightarrow> nat \<Rightarrow> real" where
  "ident i j = (if i = j then 1 else 0)"

definition meq :: "nat \<Rightarrow> (nat \<Rightarrow> nat \<Rightarrow> real) \<Rightarrow> (nat \<Rightarrow> nat \<Rightarrow> real) \<Rightarrow> bool" where
  "meq n A B = (\<forall>i<n. \<forall>j<n. A i j = B i j)"

definition lower :: "nat \<Rightarrow> (nat \<Rightarrow> nat \<Rightarrow> real) \<Rightarrow> bool" where
  "lower n L = (\<forall>i<n. \<forall>j<n. i < j \<longrightarrow> L i j = 0)"

definition spd :: "nat \<Rightarrow> (nat \<Rightarrow> nat \<Rightarrow> real) \<Rightarrow> bool" where
  "spd n S = ((\<forall>i<n. \<forall>j<n. S i j = S j i) \<and>
              (\<forall>x. (\<exists>i<n. x i \<noteq> 0) \<longrightarrow> 0 < (\<Sum>i<n. \<Sum>j<n. x i * S i j * x j)))"

definition tril :: "(nat \<Rightarrow> nat \<Rightarrow> real) \<Rightarrow> nat \<Rightarrow> nat \<Rightarrow> real" where
  "tril A i j = (if i < j then 0 else A i j)"

text \<open>
  A diagonal matrix, the conjugate \<open>V * A * V\<^sup>T\<close>, and what the Lowdin branch
  expects of the eigensolver: on the buffer \<open>A\<close> it leaves an orthogonal \<open>V\<close> in place of
  \<open>A\<close> and positive eigenvalues \<open>w\<close> with \<open>V * diag(w) * V\<^sup>T = A\<close>. The example is the
  overlap \<open>diag(4, 9)\<close> with an eigensolver that answers for it.
\<close>

definition dg :: "(nat \<Rightarrow> real) \<Rightarrow> nat \<Rightarrow> nat \<Rightarrow> real" where
  "dg d i j = (if i = j then d i else 0)"

definition cj :: "nat \<Rightarrow> (nat \<Rightarrow> nat \<Rightarrow> real) \<Rightarrow> (nat \<Rightarrow> nat \<Rightarrow> real) \<Rightarrow> nat \<Rightarrow> nat \<Rightarrow> real" where
  "cj n V A = mm n V (mm n A (transp V))"

definition eigen_ok :: "nat \<Rightarrow> real list \<Rightarrow> real list \<Rightarrow> real list \<Rightarrow> bool" where
  "eigen_ok n A V w =
     (length V = length A \<and> n * n \<le> length A \<and> length w = n \<and> (\<forall>j<n. 0 < w ! j) \<and>
      meq n (mm n (transp (mat n V)) (mat n V)) ident \<and>
      meq n (mm n (mat n V) (transp (mat n V))) ident \<and>
      meq n (cj n (mat n V) (dg (\<lambda>j. w ! j))) (mat n A))"

definition ex_diag :: "real list" where
  "ex_diag = [4, 0, 0, 9]"

definition ex_eig :: "char \<Rightarrow> char \<Rightarrow> nat \<Rightarrow> real list \<Rightarrow> nat \<Rightarrow> real list \<Rightarrow>
    int \<times> real list \<times> real list" where
  "ex_eig JOBZ UPLO N A LDA W = (0, [1, 0, 0, 1], [4, 9])"

text \<open>
  The spec's scenario with \<open>orthoType_\<close> set to \<open>CHOLESKY\<close>.
\<close>

definition ex_cholesky :: AOIntegrals where
  "ex_cholesky = ex_state\<lparr>orthoType := CHOLESKY\<rparr>"

section \<open>Properties\<close>

declare chol.simps [simp del] tri_inv.simps [simp del]

subsection \<open>Loops that write a buffer\<close>

lemma for_range_empty: "hi \<le> lo \<Longrightarrow> for_range lo hi body s = s"
  by (simp add: for_range_def)

lemma for_range_Suc: "lo \<le> hi \<Longrightarrow> for_range lo (Suc hi) body s = body hi (for_range lo hi body s)"
  by (simp add: for_range_def)

lemma for_range_update_length:
  "length (for_range lo hi (\<lambda>i b. b[f i := g i b]) b) = length b"
proof (induction hi)
  case 0
  show ?case by (simp add: for_range_def)
next
  case (Suc hi)
  show ?case
  proof (cases "lo \<le> hi")
    case True
    then show ?thesis using Suc by (simp add: for_range_Suc)
  next
    case False
    then show ?thesis by (simp add: for_range_empty)
  qed
qed

lemma for_range_update_nth:
  assumes "k < length b"
  shows "for_range lo hi (\<lambda>i b. b[i + c := g i (b ! (i + c))]) b ! k =
     (if lo + c \<le> k \<and> k < hi + c then g (k - c) (b ! k) else b ! k)"
proof (induction hi)
  case 0
  show ?case by (auto simp add: for_range_def)
next
  case (Suc hi)
  show ?case
  proof (cases "lo \<le> hi")
    case True
    have len: "length (for_range lo hi (\<lambda>i b. b[i + c := g i (b ! (i + c))]) b) = length b"
      by (rule for_range_update_length)
    show ?thesis
    proof (cases "k = hi + c")
      case eq: True
      then show ?thesis using True Suc assms len by (simp add: for_range_Suc)
    next
      case neq: False
      then have "(k < Suc hi + c) = (k < hi + c)" by auto
      then show ?thesis using neq True Suc assms len by (simp add: for_range_Suc)
    qed
  next
    case False
    then show ?thesis by (auto simp add: for_range_empty)
  qed
qed

lemma for2_update_length:
  "length (for_range 0 m (\<lambda>j. for_range (lo j) (hi j) (\<lambda>i b. b[f i j := g i j b])) b) = length b"
proof (induction m)
  case 0
  show ?case by (simp add: for_range_def)
next
  case (Suc m)
  show ?case using Suc by (simp add: for_range_Suc for_range_update_length)
qed

lemma for2_update_nth_gen:
  assumes k: "k < length b" and hi: "\<forall>j<m. hi j \<le> n"
  shows "for_range 0 m (\<lambda>j. for_range (lo j) (hi j)
            (\<lambda>i b. b[i + j * n := g i j (b ! (i + j * n))])) b ! k =
     (if k div n < m \<and> lo (k div n) \<le> k mod n \<and> k mod n < hi (k div n)
      then g (k mod n) (k div n) (b ! k) else b ! k)"
  using hi
proof (induction m)
  case 0
  show ?case by (simp add: for_range_def)
next
  case (Suc m)
  let ?prev = "for_range 0 m (\<lambda>j. for_range (lo j) (hi j)
            (\<lambda>i b. b[i + j * n := g i j (b ! (i + j * n))])) b"
  have len: "length ?prev = length b" by (rule for2_update_length)
  have IH: "?prev ! k = (if k div n < m \<and> lo (k div n) \<le> k mod n \<and> k mod n < hi (k div n)
      then g (k mod n) (k div n) (b ! k) else b ! k)"
    using Suc by simp
  have him: "hi m \<le> n" using Suc.prems by simp
  have step: "for_range (lo m) (hi m) (\<lambda>i b. b[i + m * n := g i m (b ! (i + m * n))]) ?prev ! k
     = (if lo m + m * n \<le> k \<and> k < hi m + m * n then g (k - m * n) m (?prev ! k) else ?prev ! k)"
    using k len by (simp add: for_range_update_nth[where g = "\<lambda>i. g i m" and c = "m * n"])
  show ?case
  proof (cases "lo m + m * n \<le> k \<and> k < hi m + m * n")
    case True
    then have "m * n \<le> k" "k < m * n + n" using him by auto
    then have d: "k div n = m"
      by (metis add.commute div_nat_eqI mult.commute mult_Suc_right)
    then have md: "k mod n = k - m * n"
      by (metis add_diff_cancel_left' mult.commute mult_div_mod_eq)
    show ?thesis using True d md IH step
      by (auto simp add: for_range_Suc)
  next
    case False
    have "\<not> (k div n = m \<and> lo m \<le> k mod n \<and> k mod n < hi m)"
    proof
      assume a: "k div n = m \<and> lo m \<le> k mod n \<and> k mod n < hi m"
      then have "k = m * n + k mod n"
        by (metis mult.commute mult_div_mod_eq)
      with a False show False by auto
    qed
    then show ?thesis using False IH step
      by (auto simp add: for_range_Suc less_Suc_eq)
  qed
qed


lemma for_range_set_nth:
  assumes "k < length b"
  shows "for_range lo hi (\<lambda>i b. b[i := g i]) b ! k = (if lo \<le> k \<and> k < hi then g k else b ! k)"
  using for_range_update_nth[OF assms, where c = 0 and g = "\<lambda>i _. g i" and lo = lo and hi = hi]
  by simp

lemma for_range_set_length: "length (for_range lo hi (\<lambda>i b. b[i := g i]) b) = length b"
  by (rule for_range_update_length)

lemma fill_n_fresh: "fill_n (map junk [0..<n]) n v = replicate n v"
  by (rule nth_equalityI)
     (simp_all add: fill_n_def for_range_set_length for_range_set_nth)

lemma copy_n_fresh: "n \<le> length src \<Longrightarrow> copy_n src n (map junk [0..<n]) = take n src"
  by (rule nth_equalityI)
     (simp_all add: copy_n_def for_range_set_length for_range_set_nth)

lemma index_div: "i < n \<Longrightarrow> (i + j * n) div n = (j::nat)"
  by simp

lemma index_mod: "i < n \<Longrightarrow> (i + j * n) mod n = (i::nat)"
  by simp

lemma index_less: "i < n \<Longrightarrow> j < m \<Longrightarrow> i + j * n < m * (n::nat)"
proof -
  assume a: "i < n" "j < m"
  then have "i + j * n < n + j * n" by simp
  also have "\<dots> = Suc j * n" by simp
  also have "\<dots> \<le> m * n" using a(2) by (intro mult_le_mono1) simp
  finally show ?thesis .
qed

lemma for2_update_nth:
  assumes "i < n" and "j < m" and "i + j * n < length b" and "\<forall>j<m. hi j \<le> n"
  shows "for_range 0 m (\<lambda>j. for_range (lo j) (hi j)
            (\<lambda>i b. b[i + j * n := g i j (b ! (i + j * n))])) b ! (i + j * n) =
     (if lo j \<le> i \<and> i < hi j then g i j (b ! (i + j * n)) else b ! (i + j * n))"
  using for2_update_nth_gen[OF assms(3,4), where lo = lo and g = g] assms(1,2)
  by (simp add: index_div index_mod)

lemma for2_update_nth_out:
  assumes "m * n \<le> k" and "k < length b" and "\<forall>j<m. hi j \<le> n"
  shows "for_range 0 m (\<lambda>j. for_range (lo j) (hi j)
            (\<lambda>i b. b[i + j * n := g i j (b ! (i + j * n))])) b ! k = b ! k"
proof -
  have "\<not> k div n < m \<or> n = 0"
    by (metis assms(1) div_le_mono div_mult_self_is_m linorder_not_less neq0_conv)
  moreover have "n = 0 \<Longrightarrow> \<not> (k div n < m \<and> lo (k div n) \<le> k mod n \<and> k mod n < hi (k div n))"
    using assms(3) by auto
  ultimately show ?thesis
    using for2_update_nth_gen[OF assms(2,3), where lo = lo and g = g] by auto
qed

lemma Gemm_length: "length (Gemm TA TB M N K ALPHA A LDA B LDB BETA C LDC) = length C"
  unfolding Gemm_def by (rule for2_update_length)

lemma Gemm_nth:
  assumes "i < M" and "j < N" and "M \<le> LDC" and "i + j * LDC < length C"
  shows "Gemm TA TB M N K ALPHA A LDA B LDB BETA C LDC ! (i + j * LDC) =
     ALPHA * (\<Sum>l<K. opm TA A LDA i l * opm TB B LDB l j) + BETA * C ! (i + j * LDC)"
proof -
  have i: "i < LDC" using assms by simp
  show ?thesis
    unfolding Gemm_def
    using for2_update_nth[OF i assms(2,4), where hi = "\<lambda>_. M" and lo = "\<lambda>_. 0"
        and g = "\<lambda>i j old. ALPHA * (\<Sum>l<K. opm TA A LDA i l * opm TB B LDB l j) + BETA * old"]
      assms(1,3)
    by simp
qed

lemma Gemm_nth_out:
  assumes "N * LDC \<le> k" and "k < length C" and "M \<le> LDC"
  shows "Gemm TA TB M N K ALPHA A LDA B LDB BETA C LDC ! k = C ! k"
  unfolding Gemm_def
  using for2_update_nth_out[OF assms(1,2), where hi = "\<lambda>_. M" and lo = "\<lambda>_. 0"
        and g = "\<lambda>i j old. ALPHA * (\<Sum>l<K. opm TA A LDA i l * opm TB B LDB l j) + BETA * old"]
      assms(3)
  by simp

lemma put_tri_length: "length (put_tri UPLO N LDA f A) = length A"
  by (simp add: put_tri_def)

lemma put_tri_nth_L:
  assumes "i < N" and "j < N" and "N \<le> LDA" and "i + j * LDA < length A"
  shows "put_tri (CHR ''L'') N LDA f A ! (i + j * LDA) = (if j \<le> i then f i j else A ! (i + j * LDA))"
  using assms by (simp add: put_tri_def Let_def index_div index_mod)

subsection \<open>What computeOrtho computes, for any kernels\<close>

lemma cholesky_branch_heap:
  "snd (snd (snd (cholesky_branch K n (O1, O2, SCR1, h)))) = h"
  by (simp add: cholesky_branch_def Let_def split: prod.splits)

lemma cholesky_branch_O2_length:
  "length (fst (snd (cholesky_branch K n (O1, O2, SCR1, h)))) = length O2"
  by (simp add: cholesky_branch_def Let_def for2_update_length split: prod.splits)

lemma cholesky_branch_O1_length:
  "length (fst (cholesky_branch K n (O1, O2, SCR1, h))) = length O1"
  by (simp add: cholesky_branch_def Let_def for2_update_length Gemm_length split: prod.splits)

lemma cholesky_branch_O2_nth:
  assumes "i < n" and "j < n" and "i + j * n < length O2"
  shows "fst (snd (cholesky_branch K n (O1, O2, SCR1, h))) ! (i + j * n) =
     (if j \<le> i then snd (Cholesky K (CHR ''L'') n SCR1 n) ! (i + j * n) else O2 ! (i + j * n))"
  using for2_update_nth[OF assms, where hi = "\<lambda>_. n" and lo = "\<lambda>j. j"
        and g = "\<lambda>i j old. snd (Cholesky K (CHR ''L'') n SCR1 n) ! (i + j * n)"] assms(1)
  by (simp add: cholesky_branch_def Let_def case_prod_beta)

lemma cholesky_branch_O1_nth:
  assumes i: "i < n" and j: "j < n" and len: "n * n \<le> length O1" "n * n \<le> length O2"
  shows "fst (cholesky_branch K n (O1, O2, SCR1, h)) ! (i + j * n) =
     (if i < j then 0
      else (\<Sum>l<n. (if i \<le> l then snd (Cholesky K (CHR ''L'') n SCR1 n) ! (l + i * n)
                     else O2 ! (l + i * n)) *
                  snd (CholeskyInv K (CHR ''L'') n (snd (Cholesky K (CHR ''L'') n SCR1 n)) n) ! (l + j * n)))"
proof -
  let ?F = "snd (Cholesky K (CHR ''L'') n SCR1 n)"
  let ?G = "snd (CholeskyInv K (CHR ''L'') n ?F n)"
  let ?O2 = "fst (snd (cholesky_branch K n (O1, O2, SCR1, h)))"
  let ?P = "Gemm (CHR ''T'') (CHR ''N'') n n n 1 ?O2 n ?G n 0 O1 n"
  have ij: "i + j * n < length O1" using index_less[OF i j] len by (simp add: mult.commute)
  have O1: "fst (cholesky_branch K n (O1, O2, SCR1, h)) =
      for_range 0 n (\<lambda>j. for_range 0 j (\<lambda>i O1. O1[i + j * n := 0])) ?P"
    by (simp add: cholesky_branch_def Let_def split: prod.splits)
  have P: "?P ! (i + j * n) = (\<Sum>l<n. ?O2 ! (l + i * n) * ?G ! (l + j * n))"
    using Gemm_nth[OF i j _ ij, where K = n and ALPHA = 1 and BETA = 0] 
    by (simp add: opm_def)
  have O2: "\<And>l. l < n \<Longrightarrow> ?O2 ! (l + i * n) = (if i \<le> l then ?F ! (l + i * n) else O2 ! (l + i * n))"
  proof -
    fix l assume l: "l < n"
    have "l + i * n < length O2" using index_less[OF l i] len by (simp add: mult.commute)
    from cholesky_branch_O2_nth[OF l i this] show "?thesis l" .
  qed
  have "fst (cholesky_branch K n (O1, O2, SCR1, h)) ! (i + j * n) =
      (if 0 \<le> i \<and> i < j then 0 else ?P ! (i + j * n))"
    unfolding O1
    using for2_update_nth[OF i j, where b = ?P and hi = "\<lambda>j. j" and lo = "\<lambda>_. 0"
        and g = "\<lambda>i j old. 0"] ij
    by (simp add: Gemm_length)
  then show ?thesis using P O2 by simp
qed

lemma computeOrtho_eq:
  assumes "load (memManager s) (overlap s) = Some S" and "nSQ s \<le> length S"
    and "nBasis s * nBasis s \<le> nSQ s"
  shows "computeOrtho K junk s =
     (let h = memManager s;
          blk = Some (map junk [0..<nSQ s]);
          r = cholesky_branch K (nBasis s)
                (replicate (nSQ s) 0, replicate (nSQ s) 0, take (nSQ s) S, h @ [blk, blk, blk])
      in Some (s\<lparr>ortho1 := length h, ortho2 := Suc (length h), orthoType := CHOLESKY,
                 memManager := h @ [Some (fst r), Some (fst (snd r)), None]\<rparr>))"
proof -
  obtain a b c d where r: "cholesky_branch K (nBasis s)
      (replicate (nSQ s) 0, replicate (nSQ s) 0, take (nSQ s) S,
       memManager s @ [Some (map junk [0..<nSQ s]), Some (map junk [0..<nSQ s]), Some (map junk [0..<nSQ s])]) = (a, b, c, d)"
    by (metis prod_cases4)
  have d: "d = memManager s @ [Some (map junk [0..<nSQ s]), Some (map junk [0..<nSQ s]), Some (map junk [0..<nSQ s])]"
    using cholesky_branch_heap[of K "nBasis s" "replicate (nSQ s) 0" "replicate (nSQ s) 0" "take (nSQ s) S"
        "memManager s @ [Some (map junk [0..<nSQ s]), Some (map junk [0..<nSQ s]), Some (map junk [0..<nSQ s])]"] r
    by simp
  show ?thesis
    using assms r d
    by (simp add: computeOrtho_def malloc_def Let_def fill_n_fresh copy_n_fresh store_def free_def
        list_update_append nth_append)
qed


subsection \<open>The frame of computeOrtho\<close>

text \<open>
  Claim C10. \<^verbatim>\<open>computeOrtho\<close> never modifies the overlap it reads: whenever it returns,
  every block that was on the heap before the call (the overlap, kinetic, potential and
  core-Hamiltonian buffers among them) holds the values it held before, and the pointers
  to those buffers are unchanged; all work is done on the three blocks it allocates. It
  returns whenever the overlap pointer names a live block of at least \<open>nSQ_\<close> entries
  and \<open>nSQ_\<close> covers \<open>nBasis\<close> squared.
\<close>

theorem computeOrtho_frame:
  "(\<forall>s'. computeOrtho K junk s = Some s' \<longrightarrow>
      (\<forall>p<length (memManager s). load (memManager s') p = load (memManager s) p) \<and>
      overlap s' = overlap s \<and> kinetic s' = kinetic s \<and> potential s' = potential s \<and>
      coreH s' = coreH s) \<and>
   ((\<exists>S. load (memManager s) (overlap s) = Some S \<and> nSQ s \<le> length S) \<and>
      nBasis s * nBasis s \<le> nSQ s \<longrightarrow> (\<exists>s'. computeOrtho K junk s = Some s'))"
proof -
  have frame: "(\<forall>p<length (memManager s). load (memManager s') p = load (memManager s) p) \<and>
      overlap s' = overlap s \<and> kinetic s' = kinetic s \<and> potential s' = potential s \<and>
      coreH s' = coreH s" if a: "computeOrtho K junk s = Some s'" for s'
  proof -
    from a obtain S where S: "load (memManager s) (overlap s) = Some S"
      by (auto simp add: computeOrtho_def Let_def split: prod.splits option.splits)
    from a S have le: "nSQ s \<le> length S" "nBasis s * nBasis s \<le> nSQ s"
      by (auto simp add: computeOrtho_def Let_def split: prod.splits option.splits if_splits)
    from a computeOrtho_eq[OF S le, of K junk]
    have s': "s' = (let h = memManager s;
          blk = Some (map junk [0..<nSQ s]);
          r = cholesky_branch K (nBasis s)
                (replicate (nSQ s) 0, replicate (nSQ s) 0, take (nSQ s) S, h @ [blk, blk, blk])
      in s\<lparr>ortho1 := length h, ortho2 := Suc (length h), orthoType := CHOLESKY,
                 memManager := h @ [Some (fst r), Some (fst (snd r)), None]\<rparr>)"
      by (simp add: Let_def)
    show ?thesis
      by (simp add: s' Let_def load_def nth_append)
  qed
  have returns: "\<exists>s'. computeOrtho K junk s = Some s'"
    if "(\<exists>S. load (memManager s) (overlap s) = Some S \<and> nSQ s \<le> length S) \<and>
      nBasis s * nBasis s \<le> nSQ s"
  proof -
    from that obtain S where "load (memManager s) (overlap s) = Some S" "nSQ s \<le> length S"
       "nBasis s * nBasis s \<le> nSQ s" by blast
    from computeOrtho_eq[OF this, of K junk]
    show ?thesis by (simp add: Let_def)
  qed
  from frame returns show ?thesis by blast
qed


theorem computeOrtho_frame_witness:
  "\<forall>eig junk. \<exists>s'. computeOrtho (lapack eig) junk ex_state = Some s' \<and>
     load (memManager s') (overlap s') = Some ex_overlap \<and>
     load (memManager s') (kinetic s') = Some [2, 0, 0, 2] \<and>
     load (memManager s') (potential s') = Some [-3, 1, 1, -3] \<and>
     map (load (memManager s')) (coreH s') = [Some [-1, 1, 1, -1]]"
proof (intro allI)
  fix eig junk
  have pre: "(\<exists>S. load (memManager ex_state) (overlap ex_state) = Some S \<and> nSQ ex_state \<le> length S) \<and>
      nBasis ex_state * nBasis ex_state \<le> nSQ ex_state"
    by (simp add: ex_state_def load_def ex_overlap_def)
  from computeOrtho_frame[of "lapack eig" junk ex_state] pre
  obtain s' where s': "computeOrtho (lapack eig) junk ex_state = Some s'" by blast
  from computeOrtho_frame[of "lapack eig" junk ex_state] s'
  have "(\<forall>p<length (memManager ex_state). load (memManager s') p = load (memManager ex_state) p) \<and>
      overlap s' = overlap ex_state \<and> kinetic s' = kinetic ex_state \<and> potential s' = potential ex_state \<and>
      coreH s' = coreH ex_state" by blast
  then have f: "\<And>p. p < 4 \<Longrightarrow> load (memManager s') p = load (memManager ex_state) p"
    and g: "overlap s' = 0" "kinetic s' = 1" "potential s' = 2" "coreH s' = [3]"
    by (simp_all add: ex_state_def)
  have "load (memManager s') (overlap s') = Some ex_overlap \<and>
     load (memManager s') (kinetic s') = Some [2, 0, 0, 2] \<and>
     load (memManager s') (potential s') = Some [-3, 1, 1, -3] \<and>
     map (load (memManager s')) (coreH s') = [Some [-1, 1, 1, -1]]"
    using f[of 0] f[of 1] f[of 2] f[of 3] by (simp add: g) (simp add: ex_state_def load_def)
  then show "\<exists>s'. computeOrtho (lapack eig) junk ex_state = Some s' \<and>
     load (memManager s') (overlap s') = Some ex_overlap \<and>
     load (memManager s') (kinetic s') = Some [2, 0, 0, 2] \<and>
     load (memManager s') (potential s') = Some [-3, 1, 1, -3] \<and>
     map (load (memManager s')) (coreH s') = [Some [-1, 1, 1, -1]]"
    using s' by (intro exI[of _ s']) simp
qed


subsection \<open>Kernel status\<close>

text \<open>
  Claim C8, as the code has it. \<^verbatim>\<open>computeOrtho\<close> does not look at the status of any
  kernel: replacing every status the kernels return by any other value changes nothing
  in what \<^verbatim>\<open>computeOrtho\<close> returns, so a failed factorisation is neither detected nor
  turned into an abort, and the transform pair is built from whatever the kernels leave
  in the buffer.
\<close>

theorem computeOrtho_status_ignored:
  "computeOrtho
     (K\<lparr>Cholesky := \<lambda>u n A l. (st1 u n A l, snd (Cholesky K u n A l)),
        CholeskyInv := \<lambda>u n A l. (st2 u n A l, snd (CholeskyInv K u n A l)),
        HermetianEigen := \<lambda>jz u n A l w. (st3 jz u n A l w, snd (HermetianEigen K jz u n A l w))\<rparr>)
     junk s = computeOrtho K junk s"
  by (simp add: computeOrtho_def cholesky_branch_def Let_def split: prod.splits option.splits)


text \<open>
  The claim as stated fails: on the overlap \<open>[-1]\<close> the Cholesky kernel reports
  status \<open>1\<close>, and \<^verbatim>\<open>computeOrtho\<close> still returns with a transform pair.
\<close>

lemma potrf_indefinite: "potrf (CHR ''L'') (Suc 0) [- 1] (Suc 0) = (1, [- 1])"
  by (simp add: potrf_def view_def put_tri_def pivot_def Let_def)

lemma potri_indefinite: "potri (CHR ''L'') (Suc 0) [- 1] (Suc 0) = (0, [1])"
  by (simp add: potri_def view_def put_tri_def Let_def tri_inv.simps)

lemma cholesky_branch_indefinite:
  "cholesky_branch (lapack eig) (Suc 0) ([0], [0], [- 1], h) = ([- 1], [- 1], [1], h)"
  by (simp add: cholesky_branch_def lapack_def potrf_indefinite potri_indefinite for_range_def
      Gemm_def opm_def)


theorem computeOrtho_failed_status_counterexample:
  "\<forall>eig junk. fst (Cholesky (lapack eig) (CHR ''L'') 1 [- 1] 1) = 1 \<and>
     (\<exists>s'. computeOrtho (lapack eig) junk ex_indefinite = Some s' \<and>
        load (memManager s') (ortho1 s') = Some [- 1] \<and>
        load (memManager s') (ortho2 s') = Some [- 1])"
proof (intro allI conjI)
  fix eig junk
  show "fst (Cholesky (lapack eig) (CHR ''L'') 1 [- 1] 1) = 1"
    by (simp add: lapack_def potrf_indefinite)
  have S: "load (memManager ex_indefinite) (overlap ex_indefinite) = Some [- 1]"
    by (simp add: ex_indefinite_def load_def)
  have "computeOrtho (lapack eig) junk ex_indefinite =
      Some (ex_indefinite\<lparr>ortho1 := 1, ortho2 := 2, orthoType := CHOLESKY,
        memManager := [Some [- 1], Some [- 1], Some [- 1], None]\<rparr>)"
    using computeOrtho_eq[OF S, of "lapack eig" junk]
    by (simp add: Let_def ex_indefinite_def cholesky_branch_indefinite)
  then show "\<exists>s'. computeOrtho (lapack eig) junk ex_indefinite = Some s' \<and>
        load (memManager s') (ortho1 s') = Some [- 1] \<and>
        load (memManager s') (ortho2 s') = Some [- 1]"
    by (simp add: load_def)
qed

subsection \<open>The configured orthogonalisation type\<close>

text \<open>
  Claim C3 fails on the code: \<^verbatim>\<open>computeOrtho\<close> assigns \<open>CHOLESKY\<close> to
  \<open>orthoType_\<close> before it branches, so a configuration that selects \<open>LOWDIN\<close> gets
  exactly what \<open>CHOLESKY\<close> gets.
\<close>

theorem computeOrtho_orthoType_overridden:
  "computeOrtho K junk (s\<lparr>orthoType := LOWDIN\<rparr>) = computeOrtho K junk (s\<lparr>orthoType := CHOLESKY\<rparr>)"
  by (simp add: computeOrtho_def Let_def split: prod.splits option.splits)


subsection \<open>The allocating overload of LU\<close>

lemma LU_mem_eq:
  assumes "0 \<le> M" and "0 \<le> N"
  shows "LU_mem LU junk M N A LDA mem =
     Some (fst (LU M N A LDA (map junk [0..<nat (min M N)])),
           fst (snd (LU M N A LDA (map junk [0..<nat (min M N)]))),
           mem @ [None])"
  using assms
  by (simp add: LU_mem_def malloc_def load_def store_def free_def Let_def case_prod_beta)

lemma live_append_None: "live (h @ [None]) = live h"
  by (auto simp add: live_def nth_append less_Suc_eq)

lemma load_append_old: "p < length h \<Longrightarrow> load (h @ g) p = load h p"
  by (simp add: load_def nth_append)

text \<open>
  Claim C9. For non-negative \<open>M\<close> and \<open>N\<close> the allocating overload returns the
  status and leaves the matrix exactly as the plain \<open>LU\<close> does when it is handed a
  pivot array of \<open>min M N\<close> entries (the fresh block), whatever status that is; and
  when it returns the pivot block has been released: the live blocks are those of before
  and each holds what it held. For a negative dimension the allocation request cannot
  be served and the overload does not return.
\<close>

theorem LU_mem_refines_LU:
  "(0 \<le> M \<and> 0 \<le> N \<longrightarrow>
      (\<exists>mem'. LU_mem LU junk M N A LDA mem =
          Some (fst (LU M N A LDA (map junk [0..<nat (min M N)])),
                fst (snd (LU M N A LDA (map junk [0..<nat (min M N)]))), mem') \<and>
        live mem' = live mem \<and>
        load mem' (length mem) = None \<and>
        (\<forall>p<length mem. load mem' p = load mem p))) \<and>
   (M < 0 \<or> N < 0 \<longrightarrow> LU_mem LU junk M N A LDA mem = None)"
proof (intro conjI impI)
  assume "0 \<le> M \<and> 0 \<le> N"
  then have "LU_mem LU junk M N A LDA mem =
     Some (fst (LU M N A LDA (map junk [0..<nat (min M N)])),
           fst (snd (LU M N A LDA (map junk [0..<nat (min M N)]))),
           mem @ [None])"
    by (simp add: LU_mem_eq)
  moreover have "load (mem @ [None]) (length mem) = None"
    by (simp add: load_def)
  ultimately show "\<exists>mem'. LU_mem LU junk M N A LDA mem =
          Some (fst (LU M N A LDA (map junk [0..<nat (min M N)])),
                fst (snd (LU M N A LDA (map junk [0..<nat (min M N)]))), mem') \<and>
        live mem' = live mem \<and>
        load mem' (length mem) = None \<and>
        (\<forall>p<length mem. load mem' p = load mem p)"
    by (intro exI[of _ "mem @ [None]"]) (simp add: live_append_None load_append_old)
next
  assume "M < 0 \<or> N < 0"
  then show "LU_mem LU junk M N A LDA mem = None"
    by (auto simp add: LU_mem_def)
qed

theorem LU_mem_refines_LU_witness:
  "\<exists>mem'. LU_mem lu_singular (\<lambda>_. 7) 2 2 [0, 0, 0, 0] 2 [Some [5], None] = Some (1, [0, 0, 0, 0], mem') \<and>
     live mem' = {0} \<and> load mem' 0 = Some [5] \<and> load mem' 2 = None"
proof -
  have "(0::int) \<le> 2 \<and> (0::int) \<le> 2" by simp
  with LU_mem_refines_LU[of 2 2 lu_singular "\<lambda>_. 7" "[0, 0, 0, 0]" 2 "[Some [5], None]"]
  obtain mem' where m: "LU_mem lu_singular (\<lambda>_. 7) 2 2 [0, 0, 0, 0] 2 [Some [5], None] =
          Some (fst (lu_singular 2 2 [0, 0, 0, 0] 2 (map (\<lambda>_. 7) [0..<nat (min 2 2)])),
                fst (snd (lu_singular 2 2 [0, 0, 0, 0] 2 (map (\<lambda>_. 7) [0..<nat (min 2 2)]))), mem')"
     "live mem' = live [Some [5::int], None]"
     "load mem' (length [Some [5::int], None]) = None"
     "\<forall>p<length [Some [5::int], None]. load mem' p = load [Some [5], None] p"
    by blast
  have l: "live [Some [5::int], None] = {0}"
    by (auto simp add: live_def less_Suc_eq)
  from m(4) have "load mem' 0 = load [Some [5], None] 0" by simp
  then have l0: "load mem' 0 = Some [5]" by (simp add: load_def)
  from m(3) have l2: "load mem' 2 = None" by (simp add: numeral_2_eq_2)
  from m(1) have r: "LU_mem lu_singular (\<lambda>_. 7) 2 2 [0, 0, 0, 0] 2 [Some [5], None] =
      Some (1, [0, 0, 0, 0], mem')"
    by (simp add: lu_singular_def)
  from r m(2) l l0 l2 show ?thesis
    by (intro exI[of _ mem']) simp
qed

subsection \<open>OneEDriver: the loops over shell pairs\<close>

lemma for_range_invariant:
  assumes "P lo s" and "\<And>i s. lo \<le> i \<Longrightarrow> i < hi \<Longrightarrow> P i s \<Longrightarrow> P (Suc i) (body i s)" and "lo \<le> hi"
  shows "P hi (for_range lo hi body s)"
  using assms(3,2)
proof (induction hi)
  case 0
  then show ?case using assms(1) by (simp add: for_range_def)
next
  case (Suc hi)
  show ?case
  proof (cases "lo \<le> hi")
    case True
    have "P hi (for_range lo hi body s)"
      using Suc.IH[OF True] Suc.prems(2) by simp
    then show ?thesis using True Suc.prems(2)[of hi] by (simp add: for_range_Suc)
  next
    case False
    then have "lo = Suc hi" using Suc.prems(1) by simp
    then show ?thesis using assms(1) by (simp add: for_range_empty)
  qed
qed

lemma place_block_length: "length (place_block NB bf1 bf2 n1 n2 buf M) = length M"
  by (simp add: place_block_def)

lemma place_block_nth:
  "k < length M \<Longrightarrow> place_block NB bf1 bf2 n1 n2 buf M ! k =
     (if in_block NB bf1 bf2 n1 n2 k then buf ((k mod NB - bf1) * n2 + (k div NB - bf2)) else M ! k)"
  by (simp add: place_block_def in_block_def Let_def)

lemma placed_0: "placed NB bf1 bf2 n1 n2 bv ms 0 = ms"
  by (rule nth_equalityI) (simp_all add: placed_def)

lemma placed_Suc:
  assumes "i < length ms" and "bv i = Some buf"
  shows "(placed NB bf1 bf2 n1 n2 bv ms i)[i := place_block NB bf1 bf2 n1 n2 buf (placed NB bf1 bf2 n1 n2 bv ms i ! i)]
      = placed NB bf1 bf2 n1 n2 bv ms (Suc i)"
  using assms
  by (intro nth_equalityI) (auto simp add: placed_def nth_list_update less_Suc_eq)

lemma place_blocks_eq:
  "place_blocks NB bf1 bf2 n1 n2 bv ms =
     (if \<forall>m<length ms. bv m \<noteq> None then Some (placed NB bf1 bf2 n1 n2 bv ms (length ms)) else None)"
proof -
  let ?body = "\<lambda>iMat acc. case acc of None \<Rightarrow> None
       | Some ms \<Rightarrow>
           (case bv iMat of None \<Rightarrow> None
            | Some buf \<Rightarrow> Some (ms[iMat := place_block NB bf1 bf2 n1 n2 buf (ms ! iMat)]))"
  let ?P = "\<lambda>i acc. i \<le> length ms \<and> acc =
      (if \<forall>m<i. bv m \<noteq> None then Some (placed NB bf1 bf2 n1 n2 bv ms i) else None)"
  have "?P (length ms) (for_range 0 (length ms) ?body (Some ms))"
  proof (rule for_range_invariant[where P = ?P])
    show "?P 0 (Some ms)" by (simp add: placed_0)
  next
    fix i acc assume i: "0 \<le> i" "i < length ms" and P: "?P i acc"
    show "?P (Suc i) (?body i acc)"
    proof (cases "\<forall>m<i. bv m \<noteq> None")
      case True
      then have acc: "acc = Some (placed NB bf1 bf2 n1 n2 bv ms i)" using P by simp
      show ?thesis
      proof (cases "bv i")
        case None
        then have "\<not> (\<forall>m<Suc i. bv m \<noteq> None)" by auto
        then show ?thesis using None acc i by simp
      next
        case (Some buf)
        then have "\<forall>m<Suc i. bv m \<noteq> None" using True by (auto simp add: less_Suc_eq)
        then show ?thesis using Some acc i placed_Suc[of i ms bv buf NB bf1 bf2 n1 n2] by simp
      qed
    next
      case False
      then have acc: "acc = None" using P by simp
      have "\<not> (\<forall>m<Suc i. bv m \<noteq> None)" using False by (auto simp add: less_Suc_eq)
      then show ?thesis using acc i by simp
    qed
  qed simp
  then show ?thesis by (simp add: place_blocks_def)
qed

lemma placed_length: "length (placed NB bf1 bf2 n1 n2 bv ms i) = length ms"
  by (simp add: placed_def)

lemma placed_nth_length:
  "m < length ms \<Longrightarrow> length (placed NB bf1 bf2 n1 n2 bv ms i ! m) = length (ms ! m)"
  by (simp add: placed_def place_block_length)

lemma placed_nth_nth:
  "m < length ms \<Longrightarrow> k < length (ms ! m) \<Longrightarrow> \<not> in_block NB bf1 bf2 n1 n2 k \<Longrightarrow>
     placed NB bf1 bf2 n1 n2 bv ms i ! m ! k = ms ! m ! k"
  by (simp add: placed_def place_block_nth)

lemma offs_Suc: "offs shs (Suc s) = offs shs s + shsize (shs ! s)"
  by (simp add: offs_def)

lemma offs_0: "offs shs 0 = 0"
  by (simp add: offs_def)

lemma offs_mono: "a \<le> b \<Longrightarrow> offs shs a \<le> offs shs b"
  unfolding offs_def by (rule sum_mono2) auto

lemma fold_shsize: "fold (\<lambda>sh init. init + shsize sh) shs a = a + sum_list (map shsize shs)"
  by (induction shs arbitrary: a) simp_all

lemma NB_offs: "fold (\<lambda>sh init. init + shsize sh) shs 0 = offs shs (length shs)"
proof -
  have "sum_list (map shsize shs) = (\<Sum>k<length shs. shsize (shs ! k))"
    by (simp add: sum_list_sum_nth atLeast0LessThan)
  then show ?thesis by (simp add: fold_shsize offs_def)
qed

lemma keeps_init: "keeps ms0 U (Some ms0)"
  by (simp add: keeps_def)

lemma keeps_None: "keeps ms0 U None"
  by (simp add: keeps_def)

lemma keeps_placed:
  assumes "keeps ms0 U (Some ms)" and "\<And>k. U k \<Longrightarrow> \<not> in_block NB bf1 bf2 n1 n2 k"
  shows "keeps ms0 U (Some (placed NB bf1 bf2 n1 n2 bv ms i))"
  using assms
  by (simp add: keeps_def placed_length placed_nth_length placed_nth_nth)

text \<open>One step of the loop over \<open>s2\<close>.\<close>

lemma pair_step_keeps:
  assumes k: "keeps ms0 U acc"
    and U: "\<And>k. U k \<Longrightarrow> compute engine (shs ! s1) (shs ! s2) 0 \<noteq> None \<Longrightarrow>
           \<not> in_block NB bf1 (offs shs s2) n1 (shsize (shs ! s2)) k"
  shows "\<exists>acc'. pair_step compute engine shs NB s1 bf1 n1 s2 (offs shs s2, acc) = (offs shs (Suc s2), acc')
           \<and> keeps ms0 U acc'"
proof (cases acc)
  case None
  then show ?thesis by (simp add: pair_step_def offs_Suc keeps_None)
next
  case (Some ms)
  show ?thesis
  proof (cases "ms = [] \<or> compute engine (shs ! s1) (shs ! s2) 0 = None")
    case True
    then show ?thesis using Some k
      by (auto simp add: pair_step_def offs_Suc keeps_None Let_def)
  next
    case False
    then have "keeps ms0 U (Some (placed NB bf1 (offs shs s2) n1 (shsize (shs ! s2))
        (compute engine (shs ! s1) (shs ! s2)) ms (length ms)))"
      using keeps_placed[of ms0 U ms NB bf1 "offs shs s2" n1 "shsize (shs ! s2)"] k Some U by blast
    then show ?thesis using Some False
      by (auto simp add: pair_step_def offs_Suc keeps_None Let_def place_blocks_eq)
  qed
qed

lemma pair_step_returns:
  assumes "acc = Some ms" and "length ms = nm" and "nm \<noteq> 0"
    and "compute engine (shs ! s1) (shs ! s2) 0 \<noteq> None \<Longrightarrow>
           (\<forall>m<nm. compute engine (shs ! s1) (shs ! s2) m \<noteq> None)"
  shows "\<exists>ms'. snd (pair_step compute engine shs NB s1 bf1 n1 s2 (bf2, acc)) = Some ms' \<and> length ms' = nm"
proof (cases "compute engine (shs ! s1) (shs ! s2) 0 = None")
  case True
  then show ?thesis using assms(1,2,3) by (auto simp add: pair_step_def Let_def)
next
  case False
  then have "\<forall>m<length ms. compute engine (shs ! s1) (shs ! s2) m \<noteq> None"
    using assms(2,4) by simp
  then show ?thesis using False assms(1,2,3)
    by (auto simp add: pair_step_def Let_def place_blocks_eq placed_length)
qed

text \<open>The loop over \<open>s2\<close>, and one step of the loop over \<open>s1\<close>.\<close>

lemma row_step_keeps:
  assumes k: "keeps ms0 (untouched compute engine shs NB) acc" and s1: "s1 < length shs"
  shows "\<exists>acc'. row_step compute engine shs NB s1 (offs shs s1, acc) = (offs shs (Suc s1), acc')
           \<and> keeps ms0 (untouched compute engine shs NB) acc'"
proof -
  let ?U = "untouched compute engine shs NB"
  let ?n1 = "shsize (shs ! s1)"
  let ?P = "\<lambda>i st. fst st = offs shs i \<and> keeps ms0 ?U (snd st)"
  have "?P (Suc s1) (for_range 0 (Suc s1)
      (pair_step compute engine shs NB s1 (offs shs s1) ?n1) (0, acc))"
  proof (rule for_range_invariant[where P = ?P])
    show "?P 0 (0, acc)" using k by (simp add: offs_0)
  next
    fix i st assume i: "0 \<le> i" "i < Suc s1" and P: "?P i st"
    obtain bf a where st: "st = (bf, a)" by (cases st)
    have bf: "bf = offs shs i" and a: "keeps ms0 ?U a" using P st by simp_all
    have U: "\<And>k. ?U k \<Longrightarrow> compute engine (shs ! s1) (shs ! i) 0 \<noteq> None \<Longrightarrow>
           \<not> in_block NB (offs shs s1) (offs shs i) ?n1 (shsize (shs ! i)) k"
      using s1 i by (simp add: untouched_def)
    from pair_step_keeps[of ms0 ?U a compute engine shs s1 i NB "offs shs s1" ?n1, OF a U]
    obtain acc' where "pair_step compute engine shs NB s1 (offs shs s1) ?n1 i (offs shs i, a)
        = (offs shs (Suc i), acc')" "keeps ms0 ?U acc'" by blast
    then show "?P (Suc i) (pair_step compute engine shs NB s1 (offs shs s1) ?n1 i st)"
      using st bf by simp
  qed simp
  then show ?thesis
    by (simp add: row_step_def Let_def offs_Suc case_prod_beta)
qed

lemma row_step_snd:
  "snd (row_step compute engine shs NB s1 (bf1, acc)) =
   snd (for_range 0 (Suc s1) (pair_step compute engine shs NB s1 bf1 (shsize (shs ! s1))) (0, acc))"
  by (simp add: row_step_def Let_def case_prod_beta)

lemma row_step_returns:
  assumes ok: "engine_ok compute engine shs nm" and nm: "nm \<noteq> 0" and s1: "s1 < length shs"
    and acc: "acc = Some ms" "length ms = nm"
  shows "\<exists>ms'. snd (row_step compute engine shs NB s1 (bf1, acc)) = Some ms' \<and> length ms' = nm"
proof -
  let ?n1 = "shsize (shs ! s1)"
  let ?P = "\<lambda>(i::nat) (st :: nat \<times> real list list option). \<exists>ms'. snd st = Some ms' \<and> length ms' = nm"
  have "?P (Suc s1) (for_range 0 (Suc s1)
      (pair_step compute engine shs NB s1 bf1 ?n1) (0, acc))"
  proof (rule for_range_invariant[where P = ?P])
    show "?P 0 (0, acc)" using acc by simp
  next
    fix i st assume i: "0 \<le> i" "i < Suc s1" and P: "?P i st"
    obtain bf a where st: "st = (bf, a)" by (cases st)
    from P st obtain ms' where a: "a = Some ms'" "length ms' = nm" by auto
    have "i \<le> s1" using i by simp
    with ok s1 have "compute engine (shs ! s1) (shs ! i) 0 \<noteq> None \<longrightarrow>
           (\<forall>m<nm. compute engine (shs ! s1) (shs ! i) m \<noteq> None)"
      unfolding engine_ok_def by blast
    then have "compute engine (shs ! s1) (shs ! i) 0 \<noteq> None \<Longrightarrow>
           (\<forall>m<nm. compute engine (shs ! s1) (shs ! i) m \<noteq> None)"
      by blast
    then have "\<exists>ms'. snd (pair_step compute engine shs NB s1 bf1 ?n1 i (bf, a)) = Some ms' \<and> length ms' = nm"
      by (rule pair_step_returns[OF a nm])
    then show "?P (Suc i) (pair_step compute engine shs NB s1 bf1 ?n1 i st)"
      unfolding st .
  qed simp
  then show ?thesis
    unfolding row_step_snd .
qed

lemma shell_pairs_keeps:
  "keeps ms0 (untouched compute engine shs NB) (shell_pairs compute engine shs NB ms0)"
proof -
  let ?U = "untouched compute engine shs NB"
  let ?P = "\<lambda>i st. fst st = offs shs i \<and> keeps ms0 ?U (snd st)"
  have "?P (length shs) (for_range 0 (length shs) (row_step compute engine shs NB) (0, Some ms0))"
  proof (rule for_range_invariant[where P = ?P])
    show "?P 0 (0, Some ms0)" by (simp add: offs_0 keeps_init)
  next
    fix i st assume i: "0 \<le> i" "i < length shs" and P: "?P i st"
    obtain bf a where st: "st = (bf, a)" by (cases st)
    have bf: "bf = offs shs i" and a: "keeps ms0 ?U a" using P st by simp_all
    from row_step_keeps[OF a i(2)]
    obtain acc' where "row_step compute engine shs NB i (offs shs i, a) = (offs shs (Suc i), acc')"
      "keeps ms0 ?U acc'" by blast
    then show "?P (Suc i) (row_step compute engine shs NB i st)"
      using st bf by simp
  qed simp
  then show ?thesis by (simp add: shell_pairs_def)
qed

lemma shell_pairs_returns:
  assumes "engine_ok compute engine shs (length ms0)" and "ms0 \<noteq> []"
  shows "\<exists>ms. shell_pairs compute engine shs NB ms0 = Some ms"
proof -
  let ?P = "\<lambda>(i::nat) (st :: nat \<times> real list list option). \<exists>ms'. snd st = Some ms' \<and> length ms' = length ms0"
  have nm: "length ms0 \<noteq> 0" using assms(2) by simp
  have "?P (length shs) (for_range 0 (length shs) (row_step compute engine shs NB) (0, Some ms0))"
  proof (rule for_range_invariant[where P = ?P])
    show "?P 0 (0, Some ms0)" by simp
  next
    fix i st assume i: "0 \<le> i" "i < length shs" and P: "?P i st"
    obtain bf a where st: "st = (bf, a)" by (cases st)
    from P st obtain ms' where a: "a = Some ms'" "length ms' = length ms0" by auto
    have "\<exists>ms'. snd (row_step compute engine shs NB i (bf, a)) = Some ms' \<and> length ms' = length ms0"
      by (rule row_step_returns[OF assms(1) nm i(2) a])
    then show "?P (Suc i) (row_step compute engine shs NB i st)"
      unfolding st .
  qed simp
  then show ?thesis by (auto simp add: shell_pairs_def)
qed

lemma alloc_loop:
  "for_range 0 nm (\<lambda>i (mats, matMaps, h).
       case malloc NBSQ junk h of
         (p, h) \<Rightarrow> (mats @ [p], matMaps @ [fill_n (map junk [0..<NBSQ]) NBSQ 0],
                    store p (fill_n (map junk [0..<NBSQ]) NBSQ 0) h)) ([], [], h)
   = ([length h..<length h + nm], replicate nm (replicate NBSQ 0),
      h @ replicate nm (Some (replicate NBSQ 0)))"
proof (induction nm)
  case 0
  show ?case by (simp add: for_range_def)
next
  case (Suc nm)
  have "for_range 0 (Suc nm) (\<lambda>i (mats, matMaps, h).
       case malloc NBSQ junk h of
         (p, h) \<Rightarrow> (mats @ [p], matMaps @ [fill_n (map junk [0..<NBSQ]) NBSQ 0],
                    store p (fill_n (map junk [0..<NBSQ]) NBSQ 0) h)) ([], [], h)
     = (\<lambda>(mats, matMaps, h).
       case malloc NBSQ junk h of
         (p, h) \<Rightarrow> (mats @ [p], matMaps @ [fill_n (map junk [0..<NBSQ]) NBSQ 0],
                    store p (fill_n (map junk [0..<NBSQ]) NBSQ 0) h))
       ([length h..<length h + nm], replicate nm (replicate NBSQ 0),
        h @ replicate nm (Some (replicate NBSQ 0)))"
    by (simp only: for_range_Suc[OF le0] Suc)
  also have "\<dots> = ([length h..<length h + Suc nm], replicate (Suc nm) (replicate NBSQ 0),
      h @ replicate (Suc nm) (Some (replicate NBSQ 0)))"
    by (simp add: malloc_def store_def fill_n_fresh replicate_append_same list_update_append)
  finally show ?case .
qed

lemma store_fold:
  assumes "j \<le> length Ms" and "length X = length Ms"
  shows "fold (\<lambda>(p, M) h. store p M h) (zip [length h..<length h + j] (take j Ms)) (h @ X)
     = h @ map Some (take j Ms) @ drop j X"
  using assms(1)
proof (induction j)
  case 0
  show ?case by simp
next
  case (Suc j)
  then have j: "j < length Ms" by simp
  have z: "zip [length h..<length h + Suc j] (take (Suc j) Ms) =
      zip [length h..<length h + j] (take j Ms) @ [(length h + j, Ms ! j)]"
    using j by (simp add: take_Suc_conv_app_nth)
  have d: "drop j X = X ! j # drop (Suc j) X"
    using j assms(2) by (simp add: Cons_nth_drop_Suc)
  show ?case
    using Suc j d
    by (simp add: z store_def take_Suc_conv_app_nth list_update_append)
qed

lemma store_fold_all:
  assumes "length X = length Ms" and "l = length h" and "nm = length Ms"
  shows "fold (\<lambda>(p, M) h. store p M h) (zip [l..<l + nm] Ms) (h @ X) = h @ map Some Ms"
  using store_fold[of "length Ms" Ms X h] assms by simp

lemma shell_pairs_length:
  "shell_pairs compute engine shs NB ms0 = Some ms \<Longrightarrow> length ms = length ms0"
  using shell_pairs_keeps[of ms0 compute engine shs NB] by (simp add: keeps_def)

lemma OneEDriver_eq:
  assumes "shs \<noteq> []"
  shows "OneEDriver compute junk atms op shs h =
     (let NB = offs shs (length shs) in
      case shell_pairs compute (first_engine op shs atms) shs NB
             (replicate (nopers op) (replicate (NB * NB) 0)) of
        None \<Rightarrow> None
      | Some Ms \<Rightarrow>
          Some ([length h..<length h + nopers op], h @ map (\<lambda>M. Some (selfadjoint_lower NB M)) Ms))"
proof (cases "shell_pairs compute (first_engine op shs atms) shs (offs shs (length shs))
             (replicate (nopers op) (replicate (offs shs (length shs) * offs shs (length shs)) 0))")
  case None
  then show ?thesis using assms
    by (simp add: OneEDriver_def NB_offs Let_def alloc_loop)
next
  case (Some Ms)
  have len: "length Ms = nopers op" using shell_pairs_length[OF Some] by simp
  have "fold (\<lambda>(p, M) h. store p M h)
          (zip [length h..<length h + nopers op] (map (selfadjoint_lower (offs shs (length shs))) Ms))
          (h @ replicate (nopers op) (Some (replicate (offs shs (length shs) * offs shs (length shs)) 0)))
        = h @ map Some (map (selfadjoint_lower (offs shs (length shs))) Ms)"
    by (rule store_fold_all) (simp_all add: len)
  then show ?thesis using assms Some
    by (simp add: OneEDriver_def NB_offs Let_def alloc_loop comp_def)
qed

lemma selfadjoint_lower_length: "length (selfadjoint_lower NB M) = length M"
  by (simp add: selfadjoint_lower_def)

lemma selfadjoint_lower_nth:
  assumes "i < NB" and "j < NB" and "NB * NB \<le> length M"
  shows "selfadjoint_lower NB M ! (i + j * NB) = M ! (max i j + min i j * NB)"
proof -
  have "i + j * NB < length M" using index_less[OF assms(1,2)] assms(3) by simp
  then show ?thesis using assms(1,2)
    by (simp add: selfadjoint_lower_def Let_def index_div index_mod max_def min_def)
qed

lemma selfadjoint_lower_sym:
  assumes "i < NB" and "j < NB" and "NB * NB \<le> length M"
  shows "selfadjoint_lower NB M ! (i + j * NB) = selfadjoint_lower NB M ! (j + i * NB)"
  using selfadjoint_lower_nth[OF assms] selfadjoint_lower_nth[OF assms(2,1,3)]
  by (simp add: max.commute min.commute)

subsection \<open>OneEDriver: symmetry and screened pairs\<close>

lemma offs_range_unique:
  assumes "offs shs a \<le> x" and "x < offs shs (Suc a)" and "offs shs b \<le> x" and "x < offs shs (Suc b)"
  shows "a = b"
proof (rule ccontr)
  assume "a \<noteq> b"
  then consider "Suc a \<le> b" | "Suc b \<le> a" by linarith
  then show False
  proof cases
    case 1
    from offs_mono[OF 1, of shs] assms show False by simp
  next
    case 2
    from offs_mono[OF 2, of shs] assms show False by simp
  qed
qed

lemma offs_in_NB:
  assumes "s < length shs" and "r < shsize (shs ! s)"
  shows "offs shs s + r < offs shs (length shs)"
proof -
  have "offs shs s + r < offs shs (Suc s)" using assms(2) by (simp add: offs_Suc)
  also have "\<dots> \<le> offs shs (length shs)" using assms(1) by (intro offs_mono) simp
  finally show ?thesis .
qed

text \<open>An entry of the block of a screened pair is written by no other pair.\<close>

lemma screened_untouched:
  assumes s: "s2 \<le> s1" "s1 < length shs"
    and scr: "compute engine (shs ! s1) (shs ! s2) 0 = None"
    and r: "r < shsize (shs ! s1)" and c: "c < shsize (shs ! s2)"
  shows "untouched compute engine shs (offs shs (length shs))
           ((offs shs s1 + r) + (offs shs s2 + c) * offs shs (length shs))"
proof -
  let ?NB = "offs shs (length shs)"
  have i: "offs shs s1 + r < ?NB" using offs_in_NB[OF s(2) r] .
  have s2: "s2 < length shs" using s by simp
  have j: "offs shs s2 + c < ?NB" using offs_in_NB[OF s2 c] .
  show ?thesis
    unfolding untouched_def
  proof (intro allI impI)
    fix a b assume a: "a < length shs" and b: "b \<le> a"
      and ns: "compute engine (shs ! a) (shs ! b) 0 \<noteq> None"
    show "\<not> in_block ?NB (offs shs a) (offs shs b) (shsize (shs ! a)) (shsize (shs ! b))
        ((offs shs s1 + r) + (offs shs s2 + c) * ?NB)"
    proof
      assume "in_block ?NB (offs shs a) (offs shs b) (shsize (shs ! a)) (shsize (shs ! b))
        ((offs shs s1 + r) + (offs shs s2 + c) * ?NB)"
      then have ib: "offs shs a \<le> offs shs s1 + r" "offs shs s1 + r < offs shs (Suc a)"
          "offs shs b \<le> offs shs s2 + c" "offs shs s2 + c < offs shs (Suc b)"
        using i by (simp_all add: in_block_def index_div index_mod offs_Suc)
      have "offs shs s1 \<le> offs shs s1 + r" "offs shs s1 + r < offs shs (Suc s1)"
           "offs shs s2 \<le> offs shs s2 + c" "offs shs s2 + c < offs shs (Suc s2)"
        using r c by (simp_all add: offs_Suc)
      then have "a = s1" "b = s2"
        using offs_range_unique[of shs a "offs shs s1 + r" s1]
          offs_range_unique[of shs b "offs shs s2 + c" s2] ib by simp_all
      with ns scr show False by simp
    qed
  qed
qed

lemma OneEDriver_Some:
  assumes "OneEDriver compute junk atms op shs h = Some (mats, h')"
  shows "shs \<noteq> [] \<and> (\<exists>Ms. shell_pairs compute (first_engine op shs atms) shs (offs shs (length shs))
             (replicate (nopers op) (replicate (offs shs (length shs) * offs shs (length shs)) 0)) = Some Ms
           \<and> length Ms = nopers op
           \<and> mats = [length h..<length h + nopers op]
           \<and> h' = h @ map (\<lambda>M. Some (selfadjoint_lower (offs shs (length shs)) M)) Ms)"
proof -
  have ne: "shs \<noteq> []" using assms by (auto simp add: OneEDriver_def Let_def)
  from assms OneEDriver_eq[OF ne, of compute junk atms op h]
  obtain Ms where Ms: "shell_pairs compute (first_engine op shs atms) shs (offs shs (length shs))
             (replicate (nopers op) (replicate (offs shs (length shs) * offs shs (length shs)) 0)) = Some Ms"
      "mats = [length h..<length h + nopers op]"
      "h' = h @ map (\<lambda>M. Some (selfadjoint_lower (offs shs (length shs)) M)) Ms"
    by (auto simp add: Let_def split: option.splits)
  from shell_pairs_length[OF Ms(1)] have "length Ms = nopers op" by simp
  with ne Ms show ?thesis by blast
qed

lemma shell_pairs_nth_length:
  assumes "shell_pairs compute engine shs NB ms0 = Some ms" and "m < length ms0"
  shows "length (ms ! m) = length (ms0 ! m)"
  using shell_pairs_keeps[of ms0 compute engine shs NB] assms by (simp add: keeps_def)

lemma shell_pairs_untouched:
  assumes "shell_pairs compute engine shs NB ms0 = Some ms" and "m < length ms0"
    and "k < length (ms0 ! m)" and "untouched compute engine shs NB k"
  shows "ms ! m ! k = ms0 ! m ! k"
  using shell_pairs_keeps[of ms0 compute engine shs NB] assms by (simp add: keeps_def)

lemma load_new:
  "m < length Ms \<Longrightarrow> load (h @ map f Ms) ([length h..<length h + length Ms] ! m) = f (Ms ! m)"
  by (simp add: load_def nth_append)

text \<open>
  Claim C6. Every matrix \<^verbatim>\<open>OneEDriver\<close> returns is exactly symmetric, for every shell
  set, operator and engine: \<open>M[i,j] = M[j,i]\<close> for all \<open>i, j < NB\<close>, and both are
  the entry of the assembled lower triangle at \<open>(max i j, min i j)\<close>. It returns for
  every non-empty shell set when the engine hands out all its buffers for every pair it
  does not screen.
\<close>

theorem OneEDriver_symmetric:
  "(\<forall>mats h'. OneEDriver compute junk atms op shs h = Some (mats, h') \<longrightarrow>
      (\<exists>Ms. shell_pairs compute (first_engine op shs atms) shs (offs shs (length shs))
               (replicate (nopers op) (replicate (offs shs (length shs) * offs shs (length shs)) 0))
             = Some Ms \<and>
         length mats = nopers op \<and>
         (\<forall>m<length mats. \<exists>M. load h' (mats ! m) = Some M \<and>
            length M = offs shs (length shs) * offs shs (length shs) \<and>
            (\<forall>i<offs shs (length shs). \<forall>j<offs shs (length shs).
               M ! (i + j * offs shs (length shs)) = M ! (j + i * offs shs (length shs)) \<and>
               M ! (i + j * offs shs (length shs)) =
                 Ms ! m ! (max i j + min i j * offs shs (length shs)))))) \<and>
   (shs \<noteq> [] \<and> engine_ok compute (first_engine op shs atms) shs (nopers op) \<longrightarrow>
      (\<exists>mats h'. OneEDriver compute junk atms op shs h = Some (mats, h')))"
proof (intro conjI allI impI)
  fix mats h' assume a: "OneEDriver compute junk atms op shs h = Some (mats, h')"
  let ?NB = "offs shs (length shs)"
  from OneEDriver_Some[OF a] obtain Ms where
    Ms: "shell_pairs compute (first_engine op shs atms) shs ?NB
             (replicate (nopers op) (replicate (?NB * ?NB) 0)) = Some Ms"
    and len: "length Ms = nopers op"
    and mats: "mats = [length h..<length h + nopers op]"
    and h': "h' = h @ map (\<lambda>M. Some (selfadjoint_lower ?NB M)) Ms"
    by blast
  have each: "\<exists>M. load h' (mats ! m) = Some M \<and> length M = ?NB * ?NB \<and>
            (\<forall>i<?NB. \<forall>j<?NB.
               M ! (i + j * ?NB) = M ! (j + i * ?NB) \<and>
               M ! (i + j * ?NB) = Ms ! m ! (max i j + min i j * ?NB))" if m: "m < length mats" for m
  proof -
    have m': "m < length Ms" using m mats len by simp
    have l: "length (Ms ! m) = ?NB * ?NB"
      using shell_pairs_nth_length[OF Ms, of m] m' len by simp
    have ld: "load h' (mats ! m) = Some (selfadjoint_lower ?NB (Ms ! m))"
      using load_new[OF m', of h "\<lambda>M. Some (selfadjoint_lower ?NB M)"] mats h' len by simp
    show ?thesis
      using ld l selfadjoint_lower_sym[of _ ?NB _ "Ms ! m"] selfadjoint_lower_nth[of _ ?NB _ "Ms ! m"]
      by (simp add: selfadjoint_lower_length)
  qed
  show "\<exists>Ms. shell_pairs compute (first_engine op shs atms) shs ?NB
               (replicate (nopers op) (replicate (?NB * ?NB) 0)) = Some Ms \<and>
         length mats = nopers op \<and>
         (\<forall>m<length mats. \<exists>M. load h' (mats ! m) = Some M \<and>
            length M = ?NB * ?NB \<and>
            (\<forall>i<?NB. \<forall>j<?NB.
               M ! (i + j * ?NB) = M ! (j + i * ?NB) \<and>
               M ! (i + j * ?NB) = Ms ! m ! (max i j + min i j * ?NB)))"
    using Ms each mats by (intro exI[of _ Ms]) simp
next
  assume "shs \<noteq> [] \<and> engine_ok compute (first_engine op shs atms) shs (nopers op)"
  then have ne: "shs \<noteq> []" and ok: "engine_ok compute (first_engine op shs atms) shs (nopers op)"
    by simp_all
  have "nopers op \<noteq> 0" by (cases op) simp_all
  then have "replicate (nopers op) (replicate (offs shs (length shs) * offs shs (length shs)) (0::real)) \<noteq> []"
    by simp
  from shell_pairs_returns[OF _ this, of compute "first_engine op shs atms" shs "offs shs (length shs)"] ok
  obtain Ms where "shell_pairs compute (first_engine op shs atms) shs (offs shs (length shs))
             (replicate (nopers op) (replicate (offs shs (length shs) * offs shs (length shs)) 0)) = Some Ms"
    by auto
  then show "\<exists>mats h'. OneEDriver compute junk atms op shs h = Some (mats, h')"
    using OneEDriver_eq[OF ne, of compute junk atms op h] by (simp add: Let_def)
qed

text \<open>
  Claim C7. For a shell pair \<open>s2 \<le> s1\<close> that the engine screens (null first buffer),
  in every returned matrix the block at the pair's row and column offsets and its mirror
  image are exactly zero: nothing is written there and the buffers start zeroed.
\<close>

theorem OneEDriver_screened_zero:
  "OneEDriver compute junk atms op shs h = Some (mats, h') \<and> s2 \<le> s1 \<and> s1 < length shs \<and>
   compute (first_engine op shs atms) (shs ! s1) (shs ! s2) 0 = None \<longrightarrow>
     (\<forall>m<length mats. \<exists>M. load h' (mats ! m) = Some M \<and>
        (\<forall>r<shsize (shs ! s1). \<forall>c<shsize (shs ! s2).
           M ! ((offs shs s1 + r) + (offs shs s2 + c) * offs shs (length shs)) = 0 \<and>
           M ! ((offs shs s2 + c) + (offs shs s1 + r) * offs shs (length shs)) = 0))"
proof (intro impI allI)
  fix m
  assume asm: "OneEDriver compute junk atms op shs h = Some (mats, h') \<and> s2 \<le> s1 \<and> s1 < length shs \<and>
   compute (first_engine op shs atms) (shs ! s1) (shs ! s2) 0 = None" and m: "m < length mats"
  let ?NB = "offs shs (length shs)"
  let ?e = "first_engine op shs atms"
  from asm have a: "OneEDriver compute junk atms op shs h = Some (mats, h')"
    and s: "s2 \<le> s1" "s1 < length shs" and scr: "compute ?e (shs ! s1) (shs ! s2) 0 = None"
    by simp_all
  from OneEDriver_Some[OF a] obtain Ms where
    Ms: "shell_pairs compute ?e shs ?NB (replicate (nopers op) (replicate (?NB * ?NB) 0)) = Some Ms"
    and len: "length Ms = nopers op"
    and mats: "mats = [length h..<length h + nopers op]"
    and h': "h' = h @ map (\<lambda>M. Some (selfadjoint_lower ?NB M)) Ms"
    by blast
  have m': "m < length Ms" "m < nopers op" using m mats len by simp_all
  have l: "length (Ms ! m) = ?NB * ?NB"
    using shell_pairs_nth_length[OF Ms, of m] m' by simp
  have ld: "load h' (mats ! m) = Some (selfadjoint_lower ?NB (Ms ! m))"
    using load_new[OF m'(1), of h "\<lambda>M. Some (selfadjoint_lower ?NB M)"] mats h' len by simp
  have s2: "s2 < length shs" using s by simp
  text \<open>The assembled block is still zero.\<close>
  have zero: "Ms ! m ! ((offs shs s1 + r) + (offs shs s2 + c) * ?NB) = 0"
    if r: "r < shsize (shs ! s1)" and c: "c < shsize (shs ! s2)" for r c
  proof -
    have k: "(offs shs s1 + r) + (offs shs s2 + c) * ?NB < ?NB * ?NB"
      using index_less[OF offs_in_NB[OF s(2) r] offs_in_NB[OF s2 c]] .
    from shell_pairs_untouched[OF Ms, of m "(offs shs s1 + r) + (offs shs s2 + c) * ?NB"]
      screened_untouched[of s2 s1 shs compute ?e r c, OF s scr r c] m' k
    show ?thesis by simp
  qed
  have both: "selfadjoint_lower ?NB (Ms ! m) ! ((offs shs s1 + r) + (offs shs s2 + c) * ?NB) = 0 \<and>
      selfadjoint_lower ?NB (Ms ! m) ! ((offs shs s2 + c) + (offs shs s1 + r) * ?NB) = 0"
    if r: "r < shsize (shs ! s1)" and c: "c < shsize (shs ! s2)" for r c
  proof -
    let ?i = "offs shs s1 + r" and ?j = "offs shs s2 + c"
    have i: "?i < ?NB" using offs_in_NB[OF s(2) r] .
    have j: "?j < ?NB" using offs_in_NB[OF s2 c] .
    have e1: "selfadjoint_lower ?NB (Ms ! m) ! (?i + ?j * ?NB) = Ms ! m ! (max ?i ?j + min ?i ?j * ?NB)"
      using selfadjoint_lower_nth[OF i j] l by simp
    have e2: "selfadjoint_lower ?NB (Ms ! m) ! (?j + ?i * ?NB) = Ms ! m ! (max ?i ?j + min ?i ?j * ?NB)"
      using selfadjoint_lower_nth[OF j i] l by (simp add: max.commute min.commute)
    have "Ms ! m ! (max ?i ?j + min ?i ?j * ?NB) = 0"
    proof (cases "?j \<le> ?i")
      case True
      then show ?thesis using zero[OF r c] by (simp add: max_absorb1 min_absorb2)
    next
      case False
      have "s1 = s2"
      proof (rule ccontr)
        assume "s1 \<noteq> s2"
        then have "Suc s2 \<le> s1" using s by simp
        from offs_mono[OF this, of shs] c have "?j < offs shs s1" by (simp add: offs_Suc)
        with False show False by simp
      qed
      then have "Ms ! m ! ((offs shs s1 + c) + (offs shs s2 + r) * ?NB) = 0"
        using zero[of c r] r c by simp
      moreover have "?i \<le> ?j" using False by simp
      ultimately show ?thesis using \<open>s1 = s2\<close> by (simp add: max_absorb2 min_absorb1)
    qed
    with e1 e2 show ?thesis by simp
  qed
  show "\<exists>M. load h' (mats ! m) = Some M \<and>
        (\<forall>r<shsize (shs ! s1). \<forall>c<shsize (shs ! s2).
           M ! ((offs shs s1 + r) + (offs shs s2 + c) * ?NB) = 0 \<and>
           M ! ((offs shs s2 + c) + (offs shs s1 + r) * ?NB) = 0)"
    using ld both by (intro exI[of _ "selfadjoint_lower ?NB (Ms ! m)"]) simp
qed

lemma ex_offs: "offs ex_shells 0 = 0" "offs ex_shells 1 = 1" "offs ex_shells 2 = 4"
  "offs ex_shells (Suc 0) = 1" "offs ex_shells (Suc (Suc 0)) = 4"
  by (simp_all add: offs_def ex_shells_def numeral_2_eq_2)

lemma ex_engine_ok: "engine_ok ex_compute e ex_shells nm"
  by (simp add: engine_ok_def ex_compute_def)

theorem OneEDriver_symmetric_witness:
  "\<exists>mats h' M. OneEDriver ex_compute (\<lambda>_. 0) [] kinetic_op ex_shells [] = Some (mats, h') \<and>
     length mats = 1 \<and> load h' (mats ! 0) = Some M \<and> length M = 16 \<and>
     M ! 9 = M ! 6 \<and> M ! 7 = M ! 13"
proof -
  have "ex_shells \<noteq> [] \<and> engine_ok ex_compute (first_engine kinetic_op ex_shells []) ex_shells (nopers kinetic_op)"
    by (simp add: ex_engine_ok) (simp add: ex_shells_def)
  with OneEDriver_symmetric[of ex_compute "\<lambda>_. 0" "[]" kinetic_op ex_shells "[]"]
  obtain mats h' where r: "OneEDriver ex_compute (\<lambda>_. 0) [] kinetic_op ex_shells [] = Some (mats, h')"
    by blast
  with OneEDriver_symmetric[of ex_compute "\<lambda>_. 0" "[]" kinetic_op ex_shells "[]"]
  have len: "length mats = nopers kinetic_op"
    and all: "\<forall>m<length mats. \<exists>M. load h' (mats ! m) = Some M \<and>
            length M = offs ex_shells (length ex_shells) * offs ex_shells (length ex_shells) \<and>
            (\<forall>i<offs ex_shells (length ex_shells). \<forall>j<offs ex_shells (length ex_shells).
               M ! (i + j * offs ex_shells (length ex_shells)) = M ! (j + i * offs ex_shells (length ex_shells)))"
    by blast+
  have n: "length ex_shells = 2" by (simp add: ex_shells_def)
  from all len obtain M where M: "load h' (mats ! 0) = Some M" "length M = 16"
     "\<forall>i<4. \<forall>j<4. M ! (i + j * 4) = M ! (j + i * 4)"
    by (auto simp add: n ex_offs)
  have "M ! (1 + 2 * 4) = M ! (2 + 1 * 4)" "M ! (3 + 1 * 4) = M ! (1 + 3 * 4)"
    using M(3)[rule_format, of 1 2] M(3)[rule_format, of 3 1] by simp_all
  then have "M ! 9 = M ! 6" "M ! 7 = M ! 13" by simp_all
  with r len M show ?thesis by auto
qed

theorem OneEDriver_screened_zero_witness:
  "\<exists>mats h' M. OneEDriver ex_compute (\<lambda>_. 0) [] emultipole3 ex_shells [] = Some (mats, h') \<and>
     load h' (mats ! 19) = Some M \<and>
     M ! 1 = 0 \<and> M ! 2 = 0 \<and> M ! 3 = 0 \<and> M ! 4 = 0 \<and> M ! 8 = 0 \<and> M ! 12 = 0"
proof -
  have "ex_shells \<noteq> [] \<and> engine_ok ex_compute (first_engine emultipole3 ex_shells []) ex_shells (nopers emultipole3)"
    by (simp add: ex_engine_ok) (simp add: ex_shells_def)
  with OneEDriver_symmetric[of ex_compute "\<lambda>_. 0" "[]" emultipole3 ex_shells "[]"]
  obtain mats h' where r: "OneEDriver ex_compute (\<lambda>_. 0) [] emultipole3 ex_shells [] = Some (mats, h')"
    and len: "length mats = 20"
    by auto
  have pre: "OneEDriver ex_compute (\<lambda>_. 0) [] emultipole3 ex_shells [] = Some (mats, h') \<and> 0 \<le> (1::nat) \<and>
     1 < length ex_shells \<and>
     ex_compute (first_engine emultipole3 ex_shells []) (ex_shells ! 1) (ex_shells ! 0) 0 = None"
    using r by (simp add: ex_shells_def ex_compute_def)
  have "(19::nat) < length mats" using len by simp
  with OneEDriver_screened_zero[of ex_compute "\<lambda>_. 0" "[]" emultipole3 ex_shells "[]" mats h' 0 1] pre
  obtain M where M: "load h' (mats ! 19) = Some M"
    "\<forall>r<shsize (ex_shells ! 1). \<forall>c<shsize (ex_shells ! 0).
           M ! ((offs ex_shells 1 + r) + (offs ex_shells 0 + c) * offs ex_shells (length ex_shells)) = 0 \<and>
           M ! ((offs ex_shells 0 + c) + (offs ex_shells 1 + r) * offs ex_shells (length ex_shells)) = 0"
    by blast
  have n: "length ex_shells = 2" "shsize (ex_shells ! 1) = 3" "shsize (ex_shells ! 0) = 1"
    "shsize (ex_shells ! Suc 0) = 3"
    by (simp_all add: ex_shells_def)
  from M(2) have z: "\<forall>r<3. M ! (1 + r) = 0 \<and> M ! ((1 + r) * 4) = 0"
    by (simp add: n ex_offs)
  have "M ! (1 + 0) = 0 \<and> M ! ((1 + 0) * 4) = 0" "M ! (1 + 1) = 0 \<and> M ! ((1 + 1) * 4) = 0"
    "M ! (1 + 2) = 0 \<and> M ! ((1 + 2) * 4) = 0"
    using z[rule_format, of 0] z[rule_format, of 1] z[rule_format, of 2] by simp_all
  then have "M ! 1 = 0 \<and> M ! 2 = 0 \<and> M ! 3 = 0 \<and> M ! 4 = 0 \<and> M ! 8 = 0 \<and> M ! 12 = 0"
    by (simp add: numeral_2_eq_2 numeral_3_eq_3)
  with r M(1) show ?thesis by blast
qed

subsection \<open>computeAOOneE\<close>

lemma fold_set_length: "length (fold (\<lambda>i H. H[i := g i]) order H) = length H"
  by (induction order arbitrary: H) simp_all

lemma fold_set_nth:
  "i < length H \<Longrightarrow> fold (\<lambda>i H. H[i := g i]) order H ! i = (if i \<in> set order then g i else H ! i)"
proof (induction order arbitrary: H)
  case Nil
  show ?case by simp
next
  case (Cons a order)
  show ?case
    using Cons.IH[of "H[a := g a]"] Cons.prems
    by (auto simp add: nth_list_update)
qed

lemma static_schedule_set:
  assumes "0 < T"
  shows "set (static_schedule T chunk n) = {0..<n}"
proof -
  have "\<And>i. i < n \<Longrightarrow> \<exists>t<T. (i div chunk) mod T = t" using assms by simp
  then show ?thesis
    by (auto simp add: static_schedule_def)
qed

lemma by_thread_distinct:
  "distinct (concat (map (\<lambda>t. filter (\<lambda>i. g i = t) [0..<n]) [0..<k])) \<and>
   set (concat (map (\<lambda>t. filter (\<lambda>i. g i = t) [0..<n]) [0..<k])) = {i. i < n \<and> g i < (k::nat)}"
proof (induction k)
  case 0
  show ?case by simp
next
  case (Suc k)
  then show ?case by (auto simp add: less_Suc_eq)
qed

lemma static_schedule_distinct: "distinct (static_schedule T chunk n)"
  unfolding static_schedule_def using by_thread_distinct[of "\<lambda>i. (i div chunk) mod T" n T] by simp

lemma iteration_order_set:
  "iteration_order omp n = Some order \<Longrightarrow> set order = {0..<n} \<and> distinct order"
  by (auto simp add: iteration_order_def static_schedule_set static_schedule_distinct
      split: option.splits if_splits)

lemma core_sum:
  assumes "iteration_order omp n = Some order" and "i < n"
  shows "fold (\<lambda>i H. H[i := Tm ! i + Vm ! i]) order (replicate n 0) ! i = Tm ! i + Vm ! i"
  using fold_set_nth[of i "replicate n 0" "\<lambda>i. Tm ! i + Vm ! i" order] iteration_order_set[OF assms(1)] assms(2)
  by simp

lemma OneEDriver_loads:
  assumes "OneEDriver compute junk atms op shs h = Some (mats, h')"
  shows "mats = [length h..<length h + nopers op] \<and> length h' = length h + nopers op \<and>
     (\<forall>m<nopers op. \<exists>M. load h' (length h + m) = Some M \<and>
         length M = offs shs (length shs) * offs shs (length shs)) \<and>
     (\<forall>p<length h. load h' p = load h p)"
proof -
  let ?NB = "offs shs (length shs)"
  from OneEDriver_Some[OF assms] obtain Ms where
    Ms: "shell_pairs compute (first_engine op shs atms) shs ?NB
             (replicate (nopers op) (replicate (?NB * ?NB) 0)) = Some Ms"
    and len: "length Ms = nopers op"
    and mats: "mats = [length h..<length h + nopers op]"
    and h': "h' = h @ map (\<lambda>M. Some (selfadjoint_lower ?NB M)) Ms"
    by blast
  have "\<exists>M. load h' (length h + m) = Some M \<and> length M = ?NB * ?NB" if m: "m < nopers op" for m
  proof -
    have "length (Ms ! m) = ?NB * ?NB"
      using shell_pairs_nth_length[OF Ms, of m] m by simp
    then show ?thesis using m len
      by (simp add: h' load_def nth_append selfadjoint_lower_length)
  qed
  moreover have "\<forall>p<length h. load h' p = load h p"
    by (simp add: h' load_def nth_append)
  ultimately show ?thesis using mats len h' by simp
qed

text \<open>What \<^verbatim>\<open>computeAOOneE\<close> has done when it returns.\<close>

lemma computeAOOneE_Some:
  assumes "computeAOOneE compute K junk omp s = Some s'"
  shows "\<exists>multipole h1 kin h2 pot h3 Tm Vm order.
     OneEDriver compute junk (atoms s) emultipole3 (shells s) (memManager s) = Some (multipole, h1) \<and>
     OneEDriver compute junk (atoms s) kinetic_op (shells s) h1 = Some (kin, h2) \<and>
     OneEDriver compute junk (atoms s) nuclear_op (shells s) h2 = Some (pot, h3) \<and>
     load (h3 @ [Some (map junk [0..<nSQ s])]) (kin ! 0) = Some Tm \<and>
     load (h3 @ [Some (map junk [0..<nSQ s])]) (pot ! 0) = Some Vm \<and>
     nSQ s \<le> length Tm \<and> nSQ s \<le> length Vm \<and>
     iteration_order omp (nSQ s) = Some order \<and>
     computeOrtho K junk
       (s\<lparr>overlap := multipole ! 0,
          lenElecDipole := lenElecDipole s @ take 3 (drop 1 multipole),
          lenElecQuadrupole := lenElecQuadrupole s @ take 6 (drop 4 multipole),
          lenElecOctupole := lenElecOctupole s @ take 10 (drop 10 multipole),
          kinetic := kin ! 0, potential := pot ! 0,
          coreH := coreH s @ [length h3],
          memManager := h3 @ [Some (fold (\<lambda>i H. H[i := Tm ! i + Vm ! i]) order (replicate (nSQ s) 0))]\<rparr>)
       = Some s'"
proof -
  from assms obtain multipole h1 where
    1: "OneEDriver compute junk (atoms s) emultipole3 (shells s) (memManager s) = Some (multipole, h1)"
    by (auto simp add: computeAOOneE_def split: option.splits)
  from assms 1 obtain kin h2 where
    2: "OneEDriver compute junk (atoms s) kinetic_op (shells s) h1 = Some (kin, h2)"
    by (auto simp add: computeAOOneE_def split: option.splits)
  from assms 1 2 obtain pot h3 where
    3: "OneEDriver compute junk (atoms s) nuclear_op (shells s) h2 = Some (pot, h3)"
    by (auto simp add: computeAOOneE_def split: option.splits)
  from assms 1 2 3 obtain Tm where
    4: "load (h3 @ [Some (map junk [0..<nSQ s])]) (kin ! 0) = Some Tm"
    by (auto simp add: computeAOOneE_def malloc_def Let_def split: option.splits if_splits)
  from assms 1 2 3 4 obtain Vm where
    5: "load (h3 @ [Some (map junk [0..<nSQ s])]) (pot ! 0) = Some Vm"
    by (auto simp add: computeAOOneE_def malloc_def Let_def split: option.splits if_splits)
  from assms 1 2 3 4 5 obtain order where
    6: "iteration_order omp (nSQ s) = Some order"
    by (auto simp add: computeAOOneE_def malloc_def Let_def split: option.splits if_splits)
  from assms 1 2 3 4 5 6 have 7: "nSQ s \<le> length Tm" "nSQ s \<le> length Vm"
    by (auto simp add: computeAOOneE_def malloc_def Let_def split: option.splits if_splits)
  from assms 1 2 3 4 5 6 7 have
    "computeOrtho K junk
       (s\<lparr>overlap := multipole ! 0,
          lenElecDipole := lenElecDipole s @ take 3 (drop 1 multipole),
          lenElecQuadrupole := lenElecQuadrupole s @ take 6 (drop 4 multipole),
          lenElecOctupole := lenElecOctupole s @ take 10 (drop 10 multipole),
          kinetic := kin ! 0, potential := pot ! 0,
          coreH := coreH s @ [length h3],
          memManager := h3 @ [Some (fold (\<lambda>i H. H[i := Tm ! i + Vm ! i]) order (replicate (nSQ s) 0))]\<rparr>)
       = Some s'"
    by (simp add: computeAOOneE_def malloc_def Let_def store_def fill_n_fresh split: if_splits)
  with 1 2 3 4 5 6 7 show ?thesis by blast
qed

lemma load_append_new: "load (h @ [x]) (length h) = x"
  by (simp add: load_def)

lemma OneEDriver_returns:
  assumes "shs \<noteq> []" and "engine_ok compute (first_engine op shs atms) shs (nopers op)"
  shows "\<exists>mats h'. OneEDriver compute junk atms op shs h = Some (mats, h')"
  using OneEDriver_symmetric[of compute junk atms op shs h] assms by blast

lemma iteration_order_returns:
  assumes "omp = None \<or> (\<exists>T. omp = Some T \<and> 0 < T \<and> T \<le> 2 * n)"
  shows "\<exists>order. iteration_order omp n = Some order"
proof -
  have "0 < T \<Longrightarrow> T \<le> 2 * n \<Longrightarrow> 2 * n div T \<noteq> 0" for T
    by (simp add: div_eq_0_iff)
  then show ?thesis using assms
    by (auto simp add: iteration_order_def)
qed

text \<open>The three evaluations, one after the other on the heap.\<close>

lemma three_drivers:
  assumes 1: "OneEDriver compute junk atms emultipole3 shs h0 = Some (multipole, h1)"
    and 2: "OneEDriver compute junk atms kinetic_op shs h1 = Some (kin, h2)"
    and 3: "OneEDriver compute junk atms nuclear_op shs h2 = Some (pot, h3)"
  shows "length multipole = 20 \<and> multipole = [length h0..<length h0 + 20] \<and>
     kin = [length h0 + 20] \<and> pot = [length h0 + 21] \<and> length h3 = length h0 + 22 \<and>
     (\<exists>S Tm Vm. load h3 (length h0) = Some S \<and> load h3 (length h0 + 20) = Some Tm \<and>
        load h3 (length h0 + 21) = Some Vm \<and>
        length S = offs shs (length shs) * offs shs (length shs) \<and>
        length Tm = offs shs (length shs) * offs shs (length shs) \<and>
        length Vm = offs shs (length shs) * offs shs (length shs)) \<and>
     (\<forall>p<length h0. load h3 p = load h0 p)"
proof -
  let ?L = "offs shs (length shs) * offs shs (length shs)"
  from OneEDriver_loads[OF 1] have a: "multipole = [length h0..<length h0 + 20]"
    "length h1 = length h0 + 20"
    "\<forall>m<20. \<exists>M. load h1 (length h0 + m) = Some M \<and> length M = ?L"
    "\<forall>p<length h0. load h1 p = load h0 p" by simp_all
  from OneEDriver_loads[OF 2] have b: "kin = [length h1]"
    "length h2 = length h1 + 1"
    "\<forall>m<1. \<exists>M. load h2 (length h1 + m) = Some M \<and> length M = ?L"
    "\<forall>p<length h1. load h2 p = load h1 p" by simp_all
  from OneEDriver_loads[OF 3] have c: "pot = [length h2]"
    "length h3 = length h2 + 1"
    "\<forall>m<1. \<exists>M. load h3 (length h2 + m) = Some M \<and> length M = ?L"
    "\<forall>p<length h2. load h3 p = load h2 p" by simp_all
  from a(3) obtain S where S: "load h1 (length h0) = Some S" "length S = ?L"
    by (metis add.right_neutral zero_less_numeral)
  from b(3) obtain Tm where Tm: "load h2 (length h1) = Some Tm" "length Tm = ?L"
    by (metis add.right_neutral zero_less_one)
  from c(3) obtain Vm where Vm: "load h3 (length h2) = Some Vm" "length Vm = ?L"
    by (metis add.right_neutral zero_less_one)
  have S3: "load h3 (length h0) = Some S"
    using S(1) a(2) b(2,4) c(4) by simp
  have T3: "load h3 (length h0 + 20) = Some Tm"
    using Tm(1) a(2) b(2) c(4) by simp
  have V3: "load h3 (length h0 + 21) = Some Vm"
    using Vm(1) a(2) b(2) by (simp add: add.commute)
  have old: "\<forall>p<length h0. load h3 p = load h0 p"
    using a(2,4) b(2,4) c(4) by simp
  have "kin = [length h0 + 20]" using b(1) a(2) by simp
  moreover have "pot = [length h0 + 21]" using c(1) b(2) a(2) by simp
  moreover have "length h3 = length h0 + 22" using a(2) b(2) c(2) by simp
  ultimately show ?thesis using a(1) S3 T3 V3 S(2) Tm(2) Vm(2) old by simp
qed

lemma computeOrtho_Some:
  assumes "computeOrtho K junk s = Some s'"
  shows "\<exists>O1 O2. s' = s\<lparr>ortho1 := length (memManager s), ortho2 := Suc (length (memManager s)),
                          orthoType := CHOLESKY,
                          memManager := memManager s @ [Some O1, Some O2, None]\<rparr>"
proof -
  from assms obtain S where S: "load (memManager s) (overlap s) = Some S"
    by (auto simp add: computeOrtho_def Let_def split: prod.splits option.splits)
  from assms S have le: "nSQ s \<le> length S" "nBasis s * nBasis s \<le> nSQ s"
    by (auto simp add: computeOrtho_def Let_def split: prod.splits option.splits if_splits)
  from assms computeOrtho_eq[OF S le, of K junk] show ?thesis
    by (auto simp add: Let_def)
qed

lemma take_drop_nths: "k + n \<le> length xs \<Longrightarrow> take n (drop k xs) = map ((!) xs) [k..<k + n]"
  by (rule nth_equalityI) simp_all

lemma computeAOOneE_returns:
  assumes ne: "shells s \<noteq> []"
    and ok: "\<forall>op. engine_ok compute (first_engine op (shells s) (atoms s)) (shells s) (nopers op)"
    and sq: "nSQ s = offs (shells s) (length (shells s)) * offs (shells s) (length (shells s))"
    and nb: "nBasis s * nBasis s \<le> nSQ s"
    and omp: "omp = None \<or> (\<exists>T. omp = Some T \<and> 0 < T \<and> T \<le> 2 * nSQ s)"
  shows "\<exists>s'. computeAOOneE compute K junk omp s = Some s'"
proof -
  let ?h0 = "memManager s"
  from OneEDriver_returns[OF ne ok[rule_format]] obtain multipole h1 where
    1: "OneEDriver compute junk (atoms s) emultipole3 (shells s) ?h0 = Some (multipole, h1)" by blast
  from OneEDriver_returns[OF ne ok[rule_format]] obtain kin h2 where
    2: "OneEDriver compute junk (atoms s) kinetic_op (shells s) h1 = Some (kin, h2)" by blast
  from OneEDriver_returns[OF ne ok[rule_format]] obtain pot h3 where
    3: "OneEDriver compute junk (atoms s) nuclear_op (shells s) h2 = Some (pot, h3)" by blast
  from three_drivers[OF 1 2 3] obtain S Tm Vm where
    l: "length multipole = 20" "multipole = [length ?h0..<length ?h0 + 20]"
       "kin = [length ?h0 + 20]" "pot = [length ?h0 + 21]" "length h3 = length ?h0 + 22"
    and S: "load h3 (length ?h0) = Some S" "length S = nSQ s"
    and Tm: "load h3 (length ?h0 + 20) = Some Tm" "length Tm = nSQ s"
    and Vm: "load h3 (length ?h0 + 21) = Some Vm" "length Vm = nSQ s"
    using sq by auto
  from iteration_order_returns[OF omp] obtain order where
    order: "iteration_order omp (nSQ s) = Some order" by blast
  let ?H = "fold (\<lambda>i H. H[i := Tm ! i + Vm ! i]) order (replicate (nSQ s) 0)"
  let ?s1 = "s\<lparr>overlap := multipole ! 0,
          lenElecDipole := lenElecDipole s @ take 3 (drop 1 multipole),
          lenElecQuadrupole := lenElecQuadrupole s @ take 6 (drop 4 multipole),
          lenElecOctupole := lenElecOctupole s @ take 10 (drop 10 multipole),
          kinetic := kin ! 0, potential := pot ! 0,
          coreH := coreH s @ [length h3],
          memManager := h3 @ [Some ?H]\<rparr>"
  have ov: "multipole ! 0 = length ?h0" using l(2) by simp
  have "load (memManager ?s1) (overlap ?s1) = Some S"
    using S(1) l(5) ov by (simp add: load_append_old)
  from computeOrtho_frame[of K junk ?s1] this S(2) nb
  obtain s' where s': "computeOrtho K junk ?s1 = Some s'" by auto
  have T4: "load (h3 @ [Some (map junk [0..<nSQ s])]) (kin ! 0) = Some Tm"
    using Tm(1) l(3,5) by (simp add: load_append_old)
  have V4: "load (h3 @ [Some (map junk [0..<nSQ s])]) (pot ! 0) = Some Vm"
    using Vm(1) l(4,5) by (simp add: load_append_old)
  have "computeAOOneE compute K junk omp s = Some s'"
    using 1 2 3 l(1) T4 V4 order Tm(2) Vm(2) s' l(3,4)
    by (simp add: computeAOOneE_def malloc_def Let_def store_def fill_n_fresh)
  then show ?thesis by blast
qed

lemma ex_mol_returns:
  assumes "omp = None \<or> (\<exists>T. omp = Some T \<and> 0 < T \<and> T \<le> 2 * nSQ ex_mol)"
  shows "shells ex_mol \<noteq> [] \<and>
    (\<forall>op. engine_ok ex_compute (first_engine op (shells ex_mol) (atoms ex_mol)) (shells ex_mol) (nopers op)) \<and>
    nSQ ex_mol = offs (shells ex_mol) (length (shells ex_mol)) * offs (shells ex_mol) (length (shells ex_mol)) \<and>
    nBasis ex_mol * nBasis ex_mol \<le> nSQ ex_mol \<and>
    (omp = None \<or> (\<exists>T. omp = Some T \<and> 0 < T \<and> T \<le> 2 * nSQ ex_mol))"
proof -
  have "length ex_shells = 2" by (simp add: ex_shells_def)
  then have "offs ex_shells (length ex_shells) = 4" by (simp add: ex_offs)
  moreover have "ex_shells \<noteq> []" by (simp add: ex_shells_def)
  ultimately show ?thesis using assms by (simp add: ex_mol_def ex_engine_ok)
qed


text \<open>
  Claim C4. After \<^verbatim>\<open>computeAOOneE\<close> returns, the core Hamiltonian is the element-wise
  sum of the kinetic and the potential buffer, \<open>coreH[i] = kinetic[i] + potential[i]\<close>
  for every \<open>i < nSQ_\<close>, for the build without OpenMP (\<open>omp = None\<close>) and for every
  number of threads of the chunked static schedule alike. It returns when the basis is
  not empty, the engine is well behaved, \<open>nSQ_\<close> is the square of the number of basis
  functions and the chunk size \<open>2 * nSQ_ / T\<close> is not zero.
\<close>

theorem computeAOOneE_coreH:
  "(\<forall>s'. computeAOOneE compute K junk omp s = Some s' \<longrightarrow>
      (\<exists>H Tm Vm. coreH s' \<noteq> [] \<and>
         load (memManager s') (last (coreH s')) = Some H \<and>
         load (memManager s') (kinetic s') = Some Tm \<and>
         load (memManager s') (potential s') = Some Vm \<and>
         length H = nSQ s \<and> (\<forall>i<nSQ s. H ! i = Tm ! i + Vm ! i))) \<and>
   (shells s \<noteq> [] \<and>
    (\<forall>op. engine_ok compute (first_engine op (shells s) (atoms s)) (shells s) (nopers op)) \<and>
    nSQ s = offs (shells s) (length (shells s)) * offs (shells s) (length (shells s)) \<and>
    nBasis s * nBasis s \<le> nSQ s \<and>
    (omp = None \<or> (\<exists>T. omp = Some T \<and> 0 < T \<and> T \<le> 2 * nSQ s)) \<longrightarrow>
      (\<exists>s'. computeAOOneE compute K junk omp s = Some s'))"
proof (intro conjI allI impI)
  fix s' assume a: "computeAOOneE compute K junk omp s = Some s'"
  from computeAOOneE_Some[OF a] obtain multipole h1 kin h2 pot h3 Tm Vm order where
    1: "OneEDriver compute junk (atoms s) emultipole3 (shells s) (memManager s) = Some (multipole, h1)"
    and 2: "OneEDriver compute junk (atoms s) kinetic_op (shells s) h1 = Some (kin, h2)"
    and 3: "OneEDriver compute junk (atoms s) nuclear_op (shells s) h2 = Some (pot, h3)"
    and T4: "load (h3 @ [Some (map junk [0..<nSQ s])]) (kin ! 0) = Some Tm"
    and V4: "load (h3 @ [Some (map junk [0..<nSQ s])]) (pot ! 0) = Some Vm"
    and order: "iteration_order omp (nSQ s) = Some order"
    and co: "computeOrtho K junk
       (s\<lparr>overlap := multipole ! 0,
          lenElecDipole := lenElecDipole s @ take 3 (drop 1 multipole),
          lenElecQuadrupole := lenElecQuadrupole s @ take 6 (drop 4 multipole),
          lenElecOctupole := lenElecOctupole s @ take 10 (drop 10 multipole),
          kinetic := kin ! 0, potential := pot ! 0,
          coreH := coreH s @ [length h3],
          memManager := h3 @ [Some (fold (\<lambda>i H. H[i := Tm ! i + Vm ! i]) order (replicate (nSQ s) 0))]\<rparr>)
       = Some s'"
    by blast
  let ?H = "fold (\<lambda>i H. H[i := Tm ! i + Vm ! i]) order (replicate (nSQ s) 0)"
  from three_drivers[OF 1 2 3] have l: "kin = [length (memManager s) + 20]"
    "pot = [length (memManager s) + 21]" "length h3 = length (memManager s) + 22" by simp_all
  from computeOrtho_Some[OF co] obtain O1 O2 where
    s': "memManager s' = h3 @ [Some ?H] @ [Some O1, Some O2, None]"
      "coreH s' = coreH s @ [length h3]" "kinetic s' = kin ! 0" "potential s' = pot ! 0"
    by auto
  have H: "load (memManager s') (last (coreH s')) = Some ?H"
    by (simp add: s' load_def nth_append)
  have Tm: "load (memManager s') (kinetic s') = Some Tm"
    using T4 l by (simp add: s' load_append_old)
  have Vm: "load (memManager s') (potential s') = Some Vm"
    using V4 l by (simp add: s' load_append_old)
  have "length ?H = nSQ s" by (simp add: fold_set_length)
  moreover have "\<forall>i<nSQ s. ?H ! i = Tm ! i + Vm ! i"
    by (simp add: core_sum[OF order])
  ultimately show "\<exists>H Tm Vm. coreH s' \<noteq> [] \<and>
         load (memManager s') (last (coreH s')) = Some H \<and>
         load (memManager s') (kinetic s') = Some Tm \<and>
         load (memManager s') (potential s') = Some Vm \<and>
         length H = nSQ s \<and> (\<forall>i<nSQ s. H ! i = Tm ! i + Vm ! i)"
    using H Tm Vm s'(2) by (intro exI[of _ ?H] exI[of _ Tm] exI[of _ Vm]) simp
next
  assume "shells s \<noteq> [] \<and>
    (\<forall>op. engine_ok compute (first_engine op (shells s) (atoms s)) (shells s) (nopers op)) \<and>
    nSQ s = offs (shells s) (length (shells s)) * offs (shells s) (length (shells s)) \<and>
    nBasis s * nBasis s \<le> nSQ s \<and>
    (omp = None \<or> (\<exists>T. omp = Some T \<and> 0 < T \<and> T \<le> 2 * nSQ s))"
  then show "\<exists>s'. computeAOOneE compute K junk omp s = Some s'"
    using computeAOOneE_returns[of s compute omp K junk] by blast
qed


theorem computeAOOneE_coreH_witness:
  "\<forall>eig junk. \<exists>s' H Tm Vm. computeAOOneE ex_compute (lapack eig) junk (Some 8) ex_mol = Some s' \<and>
     load (memManager s') (last (coreH s')) = Some H \<and>
     load (memManager s') (kinetic s') = Some Tm \<and>
     load (memManager s') (potential s') = Some Vm \<and>
     length H = 16 \<and> H ! 0 = Tm ! 0 + Vm ! 0 \<and> H ! 15 = Tm ! 15 + Vm ! 15"
proof (intro allI)
  fix eig junk
  have "Some 8 = None \<or> (\<exists>T. Some 8 = Some T \<and> 0 < T \<and> T \<le> 2 * nSQ ex_mol)"
    by (simp add: ex_mol_def)
  from ex_mol_returns[OF this] computeAOOneE_coreH[of ex_compute "lapack eig" junk "Some 8" ex_mol]
  obtain s' where s': "computeAOOneE ex_compute (lapack eig) junk (Some 8) ex_mol = Some s'"
    by blast
  with computeAOOneE_coreH[of ex_compute "lapack eig" junk "Some 8" ex_mol]
  obtain H Tm Vm where r: "load (memManager s') (last (coreH s')) = Some H"
    "load (memManager s') (kinetic s') = Some Tm"
    "load (memManager s') (potential s') = Some Vm"
    "length H = nSQ ex_mol" "\<forall>i<nSQ ex_mol. H ! i = Tm ! i + Vm ! i"
    by blast
  have n: "nSQ ex_mol = 16" by (simp add: ex_mol_def)
  have "H ! 0 = Tm ! 0 + Vm ! 0" "H ! 15 = Tm ! 15 + Vm ! 15"
    using r(5)[rule_format, of 0] r(5)[rule_format, of 15] by (simp_all add: n)
  with s' r n show "\<exists>s' H Tm Vm. computeAOOneE ex_compute (lapack eig) junk (Some 8) ex_mol = Some s' \<and>
     load (memManager s') (last (coreH s')) = Some H \<and>
     load (memManager s') (kinetic s') = Some Tm \<and>
     load (memManager s') (potential s') = Some Vm \<and>
     length H = 16 \<and> H ! 0 = Tm ! 0 + Vm ! 0 \<and> H ! 15 = Tm ! 15 + Vm ! 15"
    by (intro exI[of _ s'] exI[of _ H] exI[of _ Tm] exI[of _ Vm]) simp
qed


subsection \<open>OneEDriver: what each matrix holds\<close>

lemma written_None: "written NB bf1 bf2 n1 n2 bv None"
  by (simp add: written_def)

lemma written_placed_same:
  assumes "\<forall>m<length ms. bv m \<noteq> None"
  shows "written NB bf1 bf2 n1 n2 bv (Some (placed NB bf1 bf2 n1 n2 bv ms (length ms)))"
  using assms
  by (auto simp add: written_def placed_def place_block_nth place_block_length)

lemma written_placed_other:
  assumes "written NB bf1 bf2 n1 n2 bv (Some ms)"
    and "\<And>k. in_block NB bf1 bf2 n1 n2 k \<Longrightarrow> \<not> in_block NB c1 c2 m1 m2 k"
  shows "written NB bf1 bf2 n1 n2 bv (Some (placed NB c1 c2 m1 m2 bv' ms i))"
  using assms
  by (simp add: written_def placed_length placed_nth_length placed_nth_nth)

lemma block_disjoint:
  assumes "in_block NB (offs shs a) (offs shs b) (shsize (shs ! a)) (shsize (shs ! b)) k"
    and "in_block NB (offs shs s1) (offs shs s2) (shsize (shs ! s1)) (shsize (shs ! s2)) k"
  shows "a = s1 \<and> b = s2"
proof
  show "a = s1"
    using assms by (intro offs_range_unique[of shs a "k mod NB" s1]) (simp_all add: in_block_def offs_Suc)
  show "b = s2"
    using assms by (intro offs_range_unique[of shs b "k div NB" s2]) (simp_all add: in_block_def offs_Suc)
qed

lemma pair_step_fst:
  "fst (pair_step compute engine shs NB s1 bf1 n1 s2 (bf2, acc)) = bf2 + shsize (shs ! s2)"
  by (simp add: pair_step_def Let_def)

lemma pair_step_written:
  assumes pre: "a < s1 \<or> (a = s1 \<and> b < s2) \<Longrightarrow>
      written NB (offs shs a) (offs shs b) (shsize (shs ! a)) (shsize (shs ! b))
        (compute engine (shs ! a) (shs ! b)) acc"
    and un: "compute engine (shs ! a) (shs ! b) 0 \<noteq> None"
    and post: "a < s1 \<or> (a = s1 \<and> b < Suc s2)"
  shows "written NB (offs shs a) (offs shs b) (shsize (shs ! a)) (shsize (shs ! b))
        (compute engine (shs ! a) (shs ! b))
        (snd (pair_step compute engine shs NB s1 (offs shs s1) (shsize (shs ! s1)) s2 (offs shs s2, acc)))"
proof (cases acc)
  case None
  then show ?thesis by (simp add: pair_step_def written_None)
next
  case (Some ms)
  let ?bv = "compute engine (shs ! s1) (shs ! s2)"
  show ?thesis
  proof (cases "a = s1 \<and> b = s2")
    case True
    then have bv: "?bv 0 \<noteq> None" using un by simp
    show ?thesis
    proof (cases "ms = [] \<or> \<not> (\<forall>m<length ms. ?bv m \<noteq> None)")
      case e: True
      then have "snd (pair_step compute engine shs NB s1 (offs shs s1) (shsize (shs ! s1)) s2 (offs shs s2, acc)) = None"
        using Some bv by (auto simp add: pair_step_def Let_def place_blocks_eq)
      then show ?thesis by (simp add: written_None)
    next
      case e: False
      then have "snd (pair_step compute engine shs NB s1 (offs shs s1) (shsize (shs ! s1)) s2 (offs shs s2, acc)) =
          Some (placed NB (offs shs s1) (offs shs s2) (shsize (shs ! s1)) (shsize (shs ! s2)) ?bv ms (length ms))"
        using Some bv by (auto simp add: pair_step_def Let_def place_blocks_eq)
      moreover have "written NB (offs shs s1) (offs shs s2) (shsize (shs ! s1)) (shsize (shs ! s2)) ?bv
          (Some (placed NB (offs shs s1) (offs shs s2) (shsize (shs ! s1)) (shsize (shs ! s2)) ?bv ms (length ms)))"
        using e by (intro written_placed_same) simp
      ultimately show ?thesis using True by simp
    qed
  next
    case False
    with post have "a < s1 \<or> (a = s1 \<and> b < s2)" by auto
    from pre[OF this] have w: "written NB (offs shs a) (offs shs b) (shsize (shs ! a)) (shsize (shs ! b))
        (compute engine (shs ! a) (shs ! b)) (Some ms)" using Some by simp
    have dis: "\<And>k. in_block NB (offs shs a) (offs shs b) (shsize (shs ! a)) (shsize (shs ! b)) k \<Longrightarrow>
        \<not> in_block NB (offs shs s1) (offs shs s2) (shsize (shs ! s1)) (shsize (shs ! s2)) k"
      using block_disjoint[of NB shs a b _ s1 s2] False by blast
    consider "ms = []" | "ms \<noteq> []" "?bv 0 = None" | "ms \<noteq> []" "?bv 0 \<noteq> None" "\<not> (\<forall>m<length ms. ?bv m \<noteq> None)"
      | "ms \<noteq> []" "?bv 0 \<noteq> None" "\<forall>m<length ms. ?bv m \<noteq> None" by blast
    then show ?thesis
    proof cases
      case 1
      then show ?thesis using Some by (simp add: pair_step_def Let_def written_None)
    next
      case 2
      then show ?thesis using Some w by (simp add: pair_step_def Let_def)
    next
      case 3
      then have "snd (pair_step compute engine shs NB s1 (offs shs s1) (shsize (shs ! s1)) s2 (offs shs s2, acc)) = None"
        using Some by (auto simp add: pair_step_def Let_def place_blocks_eq)
      then show ?thesis by (simp add: written_None)
    next
      case 4
      then have "snd (pair_step compute engine shs NB s1 (offs shs s1) (shsize (shs ! s1)) s2 (offs shs s2, acc)) =
          Some (placed NB (offs shs s1) (offs shs s2) (shsize (shs ! s1)) (shsize (shs ! s2)) ?bv ms (length ms))"
        using Some by (auto simp add: pair_step_def Let_def place_blocks_eq)
      then show ?thesis using written_placed_other[OF w dis] by simp
    qed
  qed
qed

lemma row_step_fst:
  "fst (row_step compute engine shs NB s1 (bf1, acc)) = bf1 + shsize (shs ! s1)"
  by (simp add: row_step_def Let_def case_prod_beta)

lemma row_step_written:
  assumes pre: "a < s1 \<Longrightarrow>
      written NB (offs shs a) (offs shs b) (shsize (shs ! a)) (shsize (shs ! b))
        (compute engine (shs ! a) (shs ! b)) acc"
    and un: "compute engine (shs ! a) (shs ! b) 0 \<noteq> None"
    and ba: "b \<le> a" and post: "a \<le> s1"
  shows "written NB (offs shs a) (offs shs b) (shsize (shs ! a)) (shsize (shs ! b))
        (compute engine (shs ! a) (shs ! b))
        (snd (row_step compute engine shs NB s1 (offs shs s1, acc)))"
proof -
  let ?W = "written NB (offs shs a) (offs shs b) (shsize (shs ! a)) (shsize (shs ! b))
        (compute engine (shs ! a) (shs ! b))"
  let ?n1 = "shsize (shs ! s1)"
  let ?Q = "\<lambda>j st. fst st = offs shs j \<and> (a < s1 \<or> (a = s1 \<and> b < j) \<longrightarrow> ?W (snd st))"
  have "?Q (Suc s1) (for_range 0 (Suc s1)
      (pair_step compute engine shs NB s1 (offs shs s1) ?n1) (0, acc))"
  proof (rule for_range_invariant[where P = ?Q])
    show "?Q 0 (0, acc)" using pre by (simp add: offs_0)
  next
    fix j st assume j: "0 \<le> j" "j < Suc s1" and Q: "?Q j st"
    obtain bf ac where st: "st = (bf, ac)" by (cases st)
    have bf: "bf = offs shs j" using Q st by simp
    have p: "a < s1 \<or> (a = s1 \<and> b < j) \<Longrightarrow> ?W ac" using Q st by simp
    have 1: "fst (pair_step compute engine shs NB s1 (offs shs s1) ?n1 j st) = offs shs (Suc j)"
      unfolding st bf by (simp add: pair_step_fst offs_Suc)
    have 2: "?W (snd (pair_step compute engine shs NB s1 (offs shs s1) ?n1 j st))"
      if "a < s1 \<or> (a = s1 \<and> b < Suc j)"
      unfolding st bf
      by (rule pair_step_written[where compute = compute and engine = engine and shs = shs
            and a = a and b = b and ?s1.0 = s1 and ?s2.0 = j and acc = ac and NB = NB, OF p un that])
    from 1 2 show "?Q (Suc j) (pair_step compute engine shs NB s1 (offs shs s1) ?n1 j st)"
      by blast
  qed simp
  moreover have "a < s1 \<or> (a = s1 \<and> b < Suc s1)" using ba post by auto
  ultimately show ?thesis unfolding row_step_snd by blast
qed

lemma shell_pairs_written:
  assumes un: "compute engine (shs ! a) (shs ! b) 0 \<noteq> None"
    and ba: "b \<le> a" and a: "a < length shs"
  shows "written NB (offs shs a) (offs shs b) (shsize (shs ! a)) (shsize (shs ! b))
        (compute engine (shs ! a) (shs ! b)) (shell_pairs compute engine shs NB ms0)"
proof -
  let ?W = "written NB (offs shs a) (offs shs b) (shsize (shs ! a)) (shsize (shs ! b))
        (compute engine (shs ! a) (shs ! b))"
  let ?P = "\<lambda>i st. fst st = offs shs i \<and> (a < i \<longrightarrow> ?W (snd st))"
  have "?P (length shs) (for_range 0 (length shs) (row_step compute engine shs NB) (0, Some ms0))"
  proof (rule for_range_invariant[where P = ?P])
    show "?P 0 (0, Some ms0)" by (simp add: offs_0)
  next
    fix i st assume i: "0 \<le> i" "i < length shs" and P: "?P i st"
    obtain bf ac where st: "st = (bf, ac)" by (cases st)
    have bf: "bf = offs shs i" using P st by simp
    have p: "a < i \<Longrightarrow> ?W ac" using P st by simp
    have 1: "fst (row_step compute engine shs NB i st) = offs shs (Suc i)"
      unfolding st bf by (simp add: row_step_fst offs_Suc)
    have 2: "?W (snd (row_step compute engine shs NB i st))" if "a < Suc i"
    proof -
      from that have ai: "a \<le> i" by simp
      show ?thesis unfolding st bf
        by (rule row_step_written[where compute = compute and engine = engine and shs = shs
            and a = a and b = b and ?s1.0 = i and acc = ac and NB = NB, OF p un ba ai])
    qed
    from 1 2 show "?P (Suc i) (row_step compute engine shs NB i st)" by blast
  qed simp
  then show ?thesis using a by (simp add: shell_pairs_def)
qed

lemma shell_pairs_block:
  assumes Ms: "shell_pairs compute engine shs (offs shs (length shs)) ms0 = Some Ms"
    and m: "m < length ms0"
    and l0: "length (ms0 ! m) = offs shs (length shs) * offs shs (length shs)"
    and s: "s2 \<le> s1" "s1 < length shs"
    and r: "r < shsize (shs ! s1)" and c: "c < shsize (shs ! s2)"
  shows "if compute engine (shs ! s1) (shs ! s2) 0 = None
     then Ms ! m ! ((offs shs s1 + r) + (offs shs s2 + c) * offs shs (length shs)) =
          ms0 ! m ! ((offs shs s1 + r) + (offs shs s2 + c) * offs shs (length shs))
     else \<exists>buf. compute engine (shs ! s1) (shs ! s2) m = Some buf \<and>
          Ms ! m ! ((offs shs s1 + r) + (offs shs s2 + c) * offs shs (length shs)) =
            buf (r * shsize (shs ! s2) + c)"
proof -
  let ?NB = "offs shs (length shs)"
  let ?i = "offs shs s1 + r" and ?j = "offs shs s2 + c"
  let ?n1 = "shsize (shs ! s1)" and ?n2 = "shsize (shs ! s2)"
  have s2: "s2 < length shs" using s by simp
  have i: "?i < ?NB" by (rule offs_in_NB[OF s(2) r])
  have j: "?j < ?NB" by (rule offs_in_NB[OF s2 c])
  have l: "length (Ms ! m) = ?NB * ?NB"
    using shell_pairs_nth_length[OF Ms m] l0 by simp
  have lenMs: "length Ms = length ms0"
    using shell_pairs_keeps[of ms0 compute engine shs ?NB] Ms by (simp add: keeps_def)
  have k: "?i + ?j * ?NB < ?NB * ?NB" using index_less[OF i j] .
  show ?thesis
  proof (cases "compute engine (shs ! s1) (shs ! s2) 0 = None")
    case True
    have k0: "?i + ?j * ?NB < length (ms0 ! m)" using k l0 by simp
    from shell_pairs_untouched[OF Ms m k0
        screened_untouched[of s2 s1 shs compute engine r c, OF s True r c]]
    show ?thesis using True by simp
  next
    case False
    have m': "m < length Ms" using m lenMs by simp
    from shell_pairs_written[where compute = compute and engine = engine and shs = shs
      and a = s1 and b = s2 and NB = ?NB and ?ms0.0 = ms0, OF False s] Ms m'
    obtain buf where buf: "compute engine (shs ! s1) (shs ! s2) m = Some buf"
      and w: "\<forall>k<length (Ms ! m). in_block ?NB (offs shs s1) (offs shs s2) ?n1 ?n2 k \<longrightarrow>
              Ms ! m ! k = buf ((k mod ?NB - offs shs s1) * ?n2 + (k div ?NB - offs shs s2))"
      unfolding written_def by blast
    have md: "(?i + ?j * ?NB) mod ?NB = ?i" by (rule index_mod[OF i])
    have dv: "(?i + ?j * ?NB) div ?NB = ?j" by (rule index_div[OF i])
    have blk: "in_block ?NB (offs shs s1) (offs shs s2) ?n1 ?n2 (?i + ?j * ?NB)"
      unfolding in_block_def md dv using r c by simp
    have kl: "?i + ?j * ?NB < length (Ms ! m)" using k l by simp
    from w[rule_format, OF kl blk]
    have "Ms ! m ! (?i + ?j * ?NB) = buf (r * ?n2 + c)"
      unfolding md dv by simp
    with buf have "\<exists>buf. compute engine (shs ! s1) (shs ! s2) m = Some buf \<and>
          Ms ! m ! (?i + ?j * ?NB) = buf (r * ?n2 + c)" by blast
    then show ?thesis by (simp only: False if_False)
  qed
qed

text \<open>
  Matrix \<open>m\<close> of the driver is the matrix assembled from result buffer \<open>m\<close> of the
  engine: on and below the diagonal the block of every pair the engine does not screen
  holds that buffer, read row-major, the block of a screened pair is zero, and the
  entries above the diagonal are the reflection.
\<close>

lemma OneEDriver_assembled:
  assumes r: "OneEDriver compute junk atms op shs h = Some (mats, h')" and m: "m < nopers op"
  shows "\<exists>M. load h' (mats ! m) = Some M \<and> assembled compute (first_engine op shs atms) shs m M"
proof -
  let ?NB = "offs shs (length shs)"
  let ?e = "first_engine op shs atms"
  let ?ms0 = "replicate (nopers op) (replicate (?NB * ?NB) (0::real))"
  from OneEDriver_Some[OF r] obtain Ms where
    Ms: "shell_pairs compute ?e shs ?NB ?ms0 = Some Ms"
    and len: "length Ms = nopers op"
    and mats: "mats = [length h..<length h + nopers op]"
    and h': "h' = h @ map (\<lambda>M. Some (selfadjoint_lower ?NB M)) Ms"
    by blast
  let ?M = "selfadjoint_lower ?NB (Ms ! m)"
  have m': "m < length Ms" using m len by simp
  have m0: "m < length ?ms0" using m by simp
  have l0: "length (?ms0 ! m) = ?NB * ?NB" using m by simp
  have l: "length (Ms ! m) = ?NB * ?NB"
    using shell_pairs_nth_length[OF Ms, of m] m by simp
  have ld: "load h' (mats ! m) = Some ?M"
    using load_new[OF m', of h "\<lambda>M. Some (selfadjoint_lower ?NB M)"] mats h' len by simp
  have lenM: "length ?M = ?NB * ?NB" using l by (simp add: selfadjoint_lower_length)
  have ent: "if compute ?e (shs ! s1) (shs ! s2) 0 = None
            then ?M ! ((offs shs s1 + r) + (offs shs s2 + c) * ?NB) = 0 \<and>
                 ?M ! ((offs shs s2 + c) + (offs shs s1 + r) * ?NB) = 0
            else \<exists>buf. compute ?e (shs ! s1) (shs ! s2) m = Some buf \<and>
                 ?M ! ((offs shs s1 + r) + (offs shs s2 + c) * ?NB) = buf (r * shsize (shs ! s2) + c) \<and>
                 ?M ! ((offs shs s2 + c) + (offs shs s1 + r) * ?NB) = buf (r * shsize (shs ! s2) + c)"
    if s: "s1 < length shs" "s2 \<le> s1" and rc: "r < shsize (shs ! s1)" "c < shsize (shs ! s2)"
      and tri: "s2 < s1 \<or> c \<le> r" for s1 s2 r c
  proof -
    let ?i = "offs shs s1 + r" and ?j = "offs shs s2 + c"
    have s2: "s2 < length shs" using s by simp
    have i: "?i < ?NB" by (rule offs_in_NB[OF s(1) rc(1)])
    have j: "?j < ?NB" by (rule offs_in_NB[OF s2 rc(2)])
    have ji: "?j \<le> ?i"
    proof (cases "s2 < s1")
      case True
      then have "offs shs (Suc s2) \<le> offs shs s1" by (intro offs_mono) simp
      then show ?thesis using rc(2) by (simp add: offs_Suc)
    next
      case False
      then have "s1 = s2" "c \<le> r" using s(2) tri by auto
      then show ?thesis by simp
    qed
    have mx: "max ?i ?j = ?i" "min ?i ?j = ?j" "max ?j ?i = ?i" "min ?j ?i = ?j"
      using ji by (simp_all add: max_def min_def)
    have le: "?NB * ?NB \<le> length (Ms ! m)" using l by simp
    have e1: "?M ! (?i + ?j * ?NB) = Ms ! m ! (?i + ?j * ?NB)"
      using selfadjoint_lower_nth[OF i j le] by (simp only: mx)
    have e2: "?M ! (?j + ?i * ?NB) = Ms ! m ! (?i + ?j * ?NB)"
      using selfadjoint_lower_nth[OF j i le] by (simp only: mx)
    have z: "?ms0 ! m ! (?i + ?j * ?NB) = 0"
      using m index_less[OF i j] by simp
    from shell_pairs_block[OF Ms m0 l0 s(2,1) rc]
    show ?thesis unfolding e1 e2 z by (simp split: if_splits)
  qed
  have "assembled compute ?e shs m ?M"
    unfolding assembled_def using lenM ent by blast
  with ld show ?thesis by blast
qed

text \<open>
  Claim C5. For the combined overlap and multipole operator \<^verbatim>\<open>OneEDriver\<close> returns
  exactly 20 matrices, and matrix \<open>m\<close> is the one assembled from result buffer \<open>m\<close> of
  the engine, whose results come in the order overlap, 3 dipoles, 6 quadrupoles, 10
  octupoles: so the returned collection is in that order. \<^verbatim>\<open>computeAOOneE\<close> extracts
  them by position: element 0 becomes the overlap, elements 1 to 3 are appended to the
  dipoles, 4 to 9 to the quadrupoles and 10 to 19 to the octupoles, and the twenty blocks
  hold when it returns what the driver left in them.
\<close>

theorem computeAOOneE_multipole_layout:
  "(\<forall>mats h'. OneEDriver compute junk atms emultipole3 shs h = Some (mats, h') \<longrightarrow>
      length mats = 20 \<and> mats = [length h..<length h + 20] \<and>
      (\<forall>m<20. \<exists>M. load h' (mats ! m) = Some M \<and>
         assembled compute (first_engine emultipole3 shs atms) shs m M)) \<and>
   (\<forall>s'. computeAOOneE compute K junk omp s = Some s' \<longrightarrow>
      (\<exists>multipole h1.
         OneEDriver compute junk (atoms s) emultipole3 (shells s) (memManager s) = Some (multipole, h1) \<and>
         overlap s' = multipole ! 0 \<and>
         lenElecDipole s' = lenElecDipole s @ map ((!) multipole) [1..<4] \<and>
         lenElecQuadrupole s' = lenElecQuadrupole s @ map ((!) multipole) [4..<10] \<and>
         lenElecOctupole s' = lenElecOctupole s @ map ((!) multipole) [10..<20] \<and>
         (\<forall>m<20. load (memManager s') (multipole ! m) = load h1 (multipole ! m))))"
proof (intro conjI allI impI)
  fix mats h' assume a: "OneEDriver compute junk atms emultipole3 shs h = Some (mats, h')"
  from OneEDriver_loads[OF a] show "length mats = 20" "mats = [length h..<length h + 20]"
    by simp_all
  fix m :: nat assume "m < 20"
  then have "m < nopers emultipole3" by simp
  from OneEDriver_assembled[OF a this]
  show "\<exists>M. load h' (mats ! m) = Some M \<and>
         assembled compute (first_engine emultipole3 shs atms) shs m M" .
next
  fix s' assume a: "computeAOOneE compute K junk omp s = Some s'"
  from computeAOOneE_Some[OF a] obtain multipole h1 kin h2 pot h3 Tm Vm order where
    1: "OneEDriver compute junk (atoms s) emultipole3 (shells s) (memManager s) = Some (multipole, h1)"
    and 2: "OneEDriver compute junk (atoms s) kinetic_op (shells s) h1 = Some (kin, h2)"
    and 3: "OneEDriver compute junk (atoms s) nuclear_op (shells s) h2 = Some (pot, h3)"
    and co: "computeOrtho K junk
       (s\<lparr>overlap := multipole ! 0,
          lenElecDipole := lenElecDipole s @ take 3 (drop 1 multipole),
          lenElecQuadrupole := lenElecQuadrupole s @ take 6 (drop 4 multipole),
          lenElecOctupole := lenElecOctupole s @ take 10 (drop 10 multipole),
          kinetic := kin ! 0, potential := pot ! 0,
          coreH := coreH s @ [length h3],
          memManager := h3 @ [Some (fold (\<lambda>i H. H[i := Tm ! i + Vm ! i]) order (replicate (nSQ s) 0))]\<rparr>)
       = Some s'"
    by blast
  from OneEDriver_loads[OF 1] have len: "length multipole = 20"
    and mp: "multipole = [length (memManager s)..<length (memManager s) + 20]"
    and l1: "length h1 = length (memManager s) + 20" by simp_all
  from OneEDriver_loads[OF 2] have l2: "length h2 = length h1 + 1"
    and f2: "\<forall>p<length h1. load h2 p = load h1 p" by simp_all
  from OneEDriver_loads[OF 3] have l3: "length h3 = length h2 + 1"
    and f3: "\<forall>p<length h2. load h3 p = load h2 p" by simp_all
  from computeOrtho_Some[OF co] obtain O1 O2 where
    s': "overlap s' = multipole ! 0"
      "lenElecDipole s' = lenElecDipole s @ take 3 (drop 1 multipole)"
      "lenElecQuadrupole s' = lenElecQuadrupole s @ take 6 (drop 4 multipole)"
      "lenElecOctupole s' = lenElecOctupole s @ take 10 (drop 10 multipole)"
    and mem: "memManager s' =
      (h3 @ [Some (fold (\<lambda>i H. H[i := Tm ! i + Vm ! i]) order (replicate (nSQ s) 0))]) @
        [Some O1, Some O2, None]"
    by auto
  have td: "take 3 (drop 1 multipole) = map ((!) multipole) [1..<4]"
    "take 6 (drop 4 multipole) = map ((!) multipole) [4..<10]"
    "take 10 (drop 10 multipole) = map ((!) multipole) [10..<20]"
    using take_drop_nths[of 1 3 multipole] take_drop_nths[of 4 6 multipole]
      take_drop_nths[of 10 10 multipole] len by simp_all
  have frame: "load (memManager s') (multipole ! m) = load h1 (multipole ! m)" if m: "m < 20" for m
  proof -
    have p: "multipole ! m = length (memManager s) + m" using mp m by simp
    have p1: "multipole ! m < length h1" using p l1 m by simp
    have p2: "multipole ! m < length h2" using p1 l2 by simp
    have p3: "multipole ! m < length h3" using p2 l3 by simp
    have "load (memManager s') (multipole ! m) = load h3 (multipole ! m)"
      unfolding mem using p3 by (simp add: load_append_old)
    also have "\<dots> = load h2 (multipole ! m)" using f3 p2 by simp
    also have "\<dots> = load h1 (multipole ! m)" using f2 p1 by simp
    finally show ?thesis .
  qed
  show "\<exists>multipole h1.
         OneEDriver compute junk (atoms s) emultipole3 (shells s) (memManager s) = Some (multipole, h1) \<and>
         overlap s' = multipole ! 0 \<and>
         lenElecDipole s' = lenElecDipole s @ map ((!) multipole) [1..<4] \<and>
         lenElecQuadrupole s' = lenElecQuadrupole s @ map ((!) multipole) [4..<10] \<and>
         lenElecOctupole s' = lenElecOctupole s @ map ((!) multipole) [10..<20] \<and>
         (\<forall>m<20. load (memManager s') (multipole ! m) = load h1 (multipole ! m))"
    using 1 s' td frame by (intro exI[of _ multipole] exI[of _ h1]) simp
qed

lemma ex_assembled:
  assumes "assembled ex_compute e ex_shells m M"
  shows "M ! 0 = real (Suc m) \<and> M ! 6 = real (Suc m) + 3 / 10 \<and> M ! 9 = real (Suc m) + 3 / 10 \<and>
     M ! 1 = 0 \<and> M ! 4 = 0 \<and> length M = 16"
proof -
  have len: "length ex_shells = 2" by (simp add: ex_shells_def)
  have sh: "ex_shells ! 0 = \<lparr>shl = 0, nprim = 3, shsize = 1\<rparr>"
    "ex_shells ! Suc 0 = \<lparr>shl = 1, nprim = 3, shsize = 3\<rparr>"
    by (simp_all add: ex_shells_def)
  from assms have l: "length M = offs ex_shells (length ex_shells) * offs ex_shells (length ex_shells)"
    and ent: "\<And>s1 s2 r c. s1 < length ex_shells \<Longrightarrow> s2 \<le> s1 \<Longrightarrow> r < shsize (ex_shells ! s1) \<Longrightarrow>
       c < shsize (ex_shells ! s2) \<Longrightarrow> s2 < s1 \<or> c \<le> r \<Longrightarrow>
           (if ex_compute e (ex_shells ! s1) (ex_shells ! s2) 0 = None
            then M ! ((offs ex_shells s1 + r) + (offs ex_shells s2 + c) * offs ex_shells (length ex_shells)) = 0 \<and>
                 M ! ((offs ex_shells s2 + c) + (offs ex_shells s1 + r) * offs ex_shells (length ex_shells)) = 0
            else \<exists>buf. ex_compute e (ex_shells ! s1) (ex_shells ! s2) m = Some buf \<and>
                 M ! ((offs ex_shells s1 + r) + (offs ex_shells s2 + c) * offs ex_shells (length ex_shells)) =
                   buf (r * shsize (ex_shells ! s2) + c) \<and>
                 M ! ((offs ex_shells s2 + c) + (offs ex_shells s1 + r) * offs ex_shells (length ex_shells)) =
                   buf (r * shsize (ex_shells ! s2) + c))"
    unfolding assembled_def by blast+
  have NB: "offs ex_shells (length ex_shells) = 4" unfolding len by (simp add: ex_offs)
  from ent[of 0 0 0 0] have a: "M ! 0 = real (Suc m)"
    by (simp add: len sh ex_offs NB ex_compute_def)
  from ent[of "Suc 0" "Suc 0" "Suc 0" 0] have b: "M ! 6 = real (Suc m) + 3 / 10 \<and> M ! 9 = real (Suc m) + 3 / 10"
    by (simp add: len sh ex_offs NB ex_compute_def)
  from ent[of "Suc 0" 0 0 0] have c: "M ! 1 = 0 \<and> M ! 4 = 0"
    by (simp add: len sh ex_offs NB ex_compute_def)
  from a b c l NB show ?thesis by simp
qed

theorem computeAOOneE_multipole_layout_witness:
  "\<forall>eig junk. \<exists>s' S Dz. computeAOOneE ex_compute (lapack eig) junk None ex_mol = Some s' \<and>
     overlap s' = 0 \<and> lenElecDipole s' = [1, 2, 3] \<and>
     lenElecQuadrupole s' = [4, 5, 6, 7, 8, 9] \<and>
     lenElecOctupole s' = [10, 11, 12, 13, 14, 15, 16, 17, 18, 19] \<and>
     load (memManager s') (overlap s') = Some S \<and>
     S ! 0 = 1 \<and> S ! 6 = 13 / 10 \<and> S ! 9 = 13 / 10 \<and> S ! 1 = 0 \<and> S ! 4 = 0 \<and>
     load (memManager s') (lenElecDipole s' ! 2) = Some Dz \<and>
     Dz ! 0 = 4 \<and> Dz ! 6 = 43 / 10 \<and> Dz ! 9 = 43 / 10 \<and> Dz ! 1 = 0 \<and> Dz ! 4 = 0"
proof (intro allI)
  fix eig junk
  have "(None :: nat option) = None \<or> (\<exists>T. None = Some T \<and> 0 < T \<and> T \<le> 2 * nSQ ex_mol)"
    by simp
  from computeAOOneE_returns[of ex_mol ex_compute None "lapack eig" junk] ex_mol_returns[OF this]
  obtain s' where s': "computeAOOneE ex_compute (lapack eig) junk None ex_mol = Some s'"
    by blast
  note layout = computeAOOneE_multipole_layout[of ex_compute junk "atoms ex_mol" "shells ex_mol"
      "memManager ex_mol" "lapack eig" None ex_mol]
  from layout s' obtain multipole h1 where m:
    "OneEDriver ex_compute junk (atoms ex_mol) emultipole3 (shells ex_mol) (memManager ex_mol) = Some (multipole, h1)"
    "overlap s' = multipole ! 0"
    "lenElecDipole s' = lenElecDipole ex_mol @ map ((!) multipole) [1..<4]"
    "lenElecQuadrupole s' = lenElecQuadrupole ex_mol @ map ((!) multipole) [4..<10]"
    "lenElecOctupole s' = lenElecOctupole ex_mol @ map ((!) multipole) [10..<20]"
    and fr: "\<forall>m<20. load (memManager s') (multipole ! m) = load h1 (multipole ! m)"
    by blast
  from layout m(1) have m2: "multipole = [length (memManager ex_mol)..<length (memManager ex_mol) + 20]"
    and asm: "\<forall>m<20. \<exists>M. load h1 (multipole ! m) = Some M \<and>
         assembled ex_compute (first_engine emultipole3 (shells ex_mol) (atoms ex_mol)) (shells ex_mol) m M"
    by blast+
  have mp: "multipole = [0..<20]" using m2 by (simp add: ex_mol_def)
  have shs: "shells ex_mol = ex_shells" by (simp add: ex_mol_def)
  have u: "[1..<4] = [1, 2, 3::nat]" "[4..<10] = [4, 5, 6, 7, 8, 9::nat]"
    "[10..<20] = [10, 11, 12, 13, 14, 15, 16, 17, 18, 19::nat]"
    "[Suc 0..<4] = [1, 2, 3::nat]"
    by (simp_all add: upt_rec)
  have o: "overlap s' = 0" using m(2) mp by simp
  have d: "lenElecDipole s' = [1, 2, 3]"
    using m(3) by (simp add: mp u ex_mol_def)
  have q: "lenElecQuadrupole s' = [4, 5, 6, 7, 8, 9]"
    using m(4) by (simp add: mp u ex_mol_def)
  have oc: "lenElecOctupole s' = [10, 11, 12, 13, 14, 15, 16, 17, 18, 19]"
    using m(5) by (simp add: mp u ex_mol_def)
  have p0: "multipole ! 0 = 0" and p3: "multipole ! 3 = 3" using mp by simp_all
  from asm[rule_format, of 0] obtain S where S: "load h1 (multipole ! 0) = Some S"
    "assembled ex_compute (first_engine emultipole3 (shells ex_mol) (atoms ex_mol)) ex_shells 0 S"
    unfolding shs by auto
  from asm[rule_format, of 3] obtain Dz where Dz: "load h1 (multipole ! 3) = Some Dz"
    "assembled ex_compute (first_engine emultipole3 (shells ex_mol) (atoms ex_mol)) ex_shells 3 Dz"
    unfolding shs by auto
  have lS: "load (memManager s') (overlap s') = Some S"
    using fr[rule_format, of 0] S(1) o p0 by simp
  have lD: "load (memManager s') (lenElecDipole s' ! 2) = Some Dz"
    using fr[rule_format, of 3] Dz(1) d p3 by simp
  from ex_assembled[OF S(2)] have vS: "S ! 0 = 1 \<and> S ! 6 = 13 / 10 \<and> S ! 9 = 13 / 10 \<and> S ! 1 = 0 \<and> S ! 4 = 0"
    by simp
  from ex_assembled[OF Dz(2)] have vD: "Dz ! 0 = 4 \<and> Dz ! 6 = 43 / 10 \<and> Dz ! 9 = 43 / 10 \<and> Dz ! 1 = 0 \<and> Dz ! 4 = 0"
    by simp
  show "\<exists>s' S Dz. computeAOOneE ex_compute (lapack eig) junk None ex_mol = Some s' \<and>
     overlap s' = 0 \<and> lenElecDipole s' = [1, 2, 3] \<and>
     lenElecQuadrupole s' = [4, 5, 6, 7, 8, 9] \<and>
     lenElecOctupole s' = [10, 11, 12, 13, 14, 15, 16, 17, 18, 19] \<and>
     load (memManager s') (overlap s') = Some S \<and>
     S ! 0 = 1 \<and> S ! 6 = 13 / 10 \<and> S ! 9 = 13 / 10 \<and> S ! 1 = 0 \<and> S ! 4 = 0 \<and>
     load (memManager s') (lenElecDipole s' ! 2) = Some Dz \<and>
     Dz ! 0 = 4 \<and> Dz ! 6 = 43 / 10 \<and> Dz ! 9 = 43 / 10 \<and> Dz ! 1 = 0 \<and> Dz ! 4 = 0"
    using s' o d q oc lS lD vS vD by (intro exI[of _ s'] exI[of _ S] exI[of _ Dz]) simp
qed

subsection \<open>Cholesky orthogonalisation of a positive-definite overlap\<close>

lemma mm_assoc: "mm n (mm n A B) C = mm n A (mm n B C)"
proof (intro ext)
  fix i j
  have "mm n (mm n A B) C i j = (\<Sum>k<n. \<Sum>l<n. A i l * B l k * C k j)"
    by (simp add: mm_def sum_distrib_right)
  also have "\<dots> = (\<Sum>l<n. \<Sum>k<n. A i l * B l k * C k j)"
    by (rule sum.swap)
  also have "\<dots> = mm n A (mm n B C) i j"
    by (simp add: mm_def sum_distrib_left mult.assoc)
  finally show "mm n (mm n A B) C i j = mm n A (mm n B C) i j" .
qed

lemma mm_cong_right: "meq n B B' \<Longrightarrow> j < n \<Longrightarrow> mm n A B i j = mm n A B' i j"
  by (simp add: mm_def meq_def)

lemma mm_cong_left: "meq n A A' \<Longrightarrow> i < n \<Longrightarrow> mm n A B i j = mm n A' B i j"
  by (simp add: mm_def meq_def)

lemma mm_ident_left: "i < n \<Longrightarrow> mm n ident B i j = B i j"
  by (simp add: mm_def ident_def if_distrib[of "\<lambda>x. x * _"] sum.delta' cong: if_cong)

lemma mm_ident_right: "j < n \<Longrightarrow> mm n A ident i j = A i j"
  by (simp add: mm_def ident_def if_distrib[of "\<lambda>x. _ * x"] sum.delta cong: if_cong)

lemma transp_mm: "transp (mm n A B) = mm n (transp B) (transp A)"
  by (intro ext) (simp add: transp_def mm_def mult.commute)

lemma transp_transp: "transp (transp A) = A"
  by (intro ext) (simp add: transp_def)

lemma transp_ident: "transp ident = ident"
  by (intro ext) (auto simp add: transp_def ident_def)

lemma meq_refl: "meq n A A"
  by (simp add: meq_def)

lemma meq_sym: "meq n A B \<Longrightarrow> meq n B A"
  by (simp add: meq_def)

lemma meq_trans [trans]: "meq n A B \<Longrightarrow> meq n B C \<Longrightarrow> meq n A C"
  by (simp add: meq_def)

lemma meq_transp: "meq n A B \<Longrightarrow> meq n (transp A) (transp B)"
  by (simp add: meq_def transp_def)

lemma meq_mm: "meq n A A' \<Longrightarrow> meq n B B' \<Longrightarrow> meq n (mm n A B) (mm n A' B')"
  by (simp add: meq_def mm_def)

lemma meq_mm_ident_left: "meq n (mm n ident B) B"
  by (simp add: meq_def mm_ident_left)

lemma meq_mm_ident_right: "meq n (mm n A ident) A"
  by (simp add: meq_def mm_ident_right)

text \<open>The inverse of a lower-triangular matrix.\<close>

lemma tri_inv_upper: "i < j \<Longrightarrow> tri_inv L i j = 0"
  by (simp add: tri_inv.simps)

lemma tri_inv_diag: "tri_inv L i i = 1 / L i i"
  by (simp add: tri_inv.simps)

lemma tri_inv_below:
  "j < i \<Longrightarrow> tri_inv L i j = - (\<Sum>k<i. L i k * tri_inv L k j) / L i i"
  by (subst tri_inv.simps) simp

lemma lower_tri_inv: "lower n (tri_inv L)"
  by (simp add: lower_def tri_inv_upper)

lemma sum_lower_row:
  assumes "lower n L" and "i < n"
  shows "(\<Sum>k<n. L i k * f k) = (\<Sum>k<Suc i. L i k * f k)"
proof -
  have "(\<Sum>k<Suc i. L i k * f k) = (\<Sum>k<n. L i k * f k)"
  proof (rule sum.mono_neutral_left)
    show "{..<Suc i} \<subseteq> {..<n}" using assms(2) by auto
    show "\<forall>k\<in>{..<n} - {..<Suc i}. L i k * f k = 0"
      using assms by (auto simp add: lower_def)
  qed simp
  then show ?thesis by simp
qed

lemma tri_inv_right:
  assumes low: "lower n L" and diag: "\<forall>i<n. L i i \<noteq> 0"
  shows "meq n (mm n L (tri_inv L)) ident"
  unfolding meq_def
proof (intro allI impI)
  fix i j assume i: "i < n" and j: "j < n"
  have d: "L i i \<noteq> 0" using diag i by simp
  have "mm n L (tri_inv L) i j = (\<Sum>k<i. L i k * tri_inv L k j) + L i i * tri_inv L i j"
    unfolding mm_def using sum_lower_row[OF low i, of "\<lambda>k. tri_inv L k j"] by simp
  also have "\<dots> = ident i j"
  proof -
    consider "i < j" | "i = j" | "j < i" by linarith
    then show ?thesis
    proof cases
      case 1
      then have "\<And>k. k < i \<Longrightarrow> tri_inv L k j = 0" by (simp add: tri_inv_upper)
      then show ?thesis using 1 by (simp add: tri_inv_upper ident_def)
    next
      case 2
      then have "\<And>k. k < i \<Longrightarrow> tri_inv L k j = 0" by (simp add: tri_inv_upper)
      then show ?thesis using 2 d by (simp add: tri_inv_diag ident_def)
    next
      case 3
      then show ?thesis using d by (simp add: tri_inv_below ident_def)
    qed
  qed
  finally show "mm n L (tri_inv L) i j = ident i j" .
qed

lemma tri_inv_left:
  assumes low: "lower n L" and diag: "\<forall>i<n. L i i \<noteq> 0"
  shows "meq n (mm n (tri_inv L) L) ident"
proof -
  let ?X = "tri_inv L"
  let ?Y = "tri_inv ?X"
  have Xd: "\<forall>i<n. ?X i i \<noteq> 0" using diag by (simp add: tri_inv_diag)
  have LX: "meq n (mm n L ?X) ident" by (rule tri_inv_right[OF low diag])
  have XY: "meq n (mm n ?X ?Y) ident" by (rule tri_inv_right[OF lower_tri_inv Xd])
  have "meq n L (mm n L ident)" by (rule meq_sym[OF meq_mm_ident_right])
  also have "meq n (mm n L ident) (mm n L (mm n ?X ?Y))"
    by (rule meq_mm[OF meq_refl meq_sym[OF XY]])
  also have "mm n L (mm n ?X ?Y) = mm n (mm n L ?X) ?Y" by (simp add: mm_assoc)
  also have "meq n (mm n (mm n L ?X) ?Y) (mm n ident ?Y)"
    by (rule meq_mm[OF LX meq_refl])
  also have "meq n (mm n ident ?Y) ?Y" by (rule meq_mm_ident_left)
  finally have "meq n L ?Y" .
  then have "meq n (mm n ?X L) (mm n ?X ?Y)" by (rule meq_mm[OF meq_refl])
  then show ?thesis using XY by (rule meq_trans)
qed

lemma chol_diag: "chol S j j = sqrt (pivot S j)"
  by (subst chol.simps) (simp add: pivot_def)

lemma chol_off: "i \<noteq> j \<Longrightarrow> chol S i j = (S i j - (\<Sum>k<j. chol S i k * chol S j k)) / chol S j j"
  by (subst chol.simps) simp

lemma chol_column:
  assumes "0 < pivot S b"
  shows "(\<Sum>k<Suc b. chol S a k * chol S b k) = S a b"
proof (cases "a = b")
  case True
  have "sqrt (pivot S b) * sqrt (pivot S b) = pivot S b"
    using assms by simp
  then have "chol S b b * chol S b b = S b b - (\<Sum>k<b. chol S b k * chol S b k)"
    unfolding chol_diag pivot_def .
  then have "(\<Sum>k<b. chol S b k * chol S b k) + chol S b b * chol S b b = S b b"
    by linarith
  then show ?thesis unfolding True by simp
next
  case False
  have nz: "chol S b b \<noteq> 0" unfolding chol_diag using assms by simp
  have e: "chol S a b = (S a b - (\<Sum>k<b. chol S a k * chol S b k)) / chol S b b"
    by (rule chol_off[OF False])
  have "chol S a b * chol S b b = S a b - (\<Sum>k<b. chol S a k * chol S b k)"
    unfolding e using nz by simp
  then have "(\<Sum>k<b. chol S a k * chol S b k) + chol S a b * chol S b b = S a b"
    by linarith
  then show ?thesis by simp
qed

lemma lower_tril: "lower n (tril A)"
  by (simp add: lower_def tril_def)

lemma tril_diag: "tril A i i = A i i"
  by (simp add: tril_def)

lemma sum_tril_pair:
  assumes "b \<le> a" and "b < m"
  shows "(\<Sum>k<m. tril A a k * tril B b k) = (\<Sum>k<Suc b. A a k * B b k)"
proof -
  have "(\<Sum>k<Suc b. tril A a k * tril B b k) = (\<Sum>k<m. tril A a k * tril B b k)"
  proof (rule sum.mono_neutral_left)
    show "{..<Suc b} \<subseteq> {..<m}" using assms(2) by auto
    show "\<forall>k\<in>{..<m} - {..<Suc b}. tril A a k * tril B b k = 0"
      by (auto simp add: tril_def)
  qed simp
  moreover have "(\<Sum>k<Suc b. tril A a k * tril B b k) = (\<Sum>k<Suc b. A a k * B b k)"
    using assms(1) by (intro sum.cong) (auto simp add: tril_def)
  ultimately show ?thesis by simp
qed

text \<open>Rows \<open>a\<close> and \<open>b\<close> of the factor multiply to \<open>S a b\<close> when column \<open>b\<close> has a positive pivot.\<close>

lemma chol_rows:
  assumes "b \<le> a" and "b < m" and "0 < pivot S b"
  shows "(\<Sum>k<m. tril (chol S) a k * tril (chol S) b k) = S a b"
  using sum_tril_pair[OF assms(1,2), of "chol S" "chol S"] chol_column[OF assms(3), of a] by simp

lemma chol_factor:
  assumes piv: "\<forall>j<n. 0 < pivot S j" and sym: "\<forall>i<n. \<forall>j<n. S i j = S j i"
  shows "meq n (mm n (tril (chol S)) (transp (tril (chol S)))) S"
  unfolding meq_def
proof (intro allI impI)
  fix i j assume i: "i < n" and j: "j < n"
  show "mm n (tril (chol S)) (transp (tril (chol S))) i j = S i j"
  proof (cases "j \<le> i")
    case True
    then show ?thesis using chol_rows[OF True j, of S] piv j by (simp add: mm_def transp_def)
  next
    case False
    then have "i \<le> j" by simp
    from chol_rows[OF this i, of S] piv i sym i j show ?thesis
      by (simp add: mm_def transp_def mult.commute)
  qed
qed

lemma quad_decomp:
  assumes "\<forall>a<N. \<forall>b<N. S a b = (\<Sum>k<m. L a k * L b k) + D a b"
  shows "(\<Sum>i<N. \<Sum>j<N. x i * S i j * x j) =
         (\<Sum>k<m. (\<Sum>i<N. x i * L i k) * (\<Sum>j<N. x j * L j k)) +
         (\<Sum>i<N. \<Sum>j<N. x i * D i j * (x j :: real))"
proof -
  have "(\<Sum>i<N. \<Sum>j<N. x i * S i j * x j) =
      (\<Sum>i<N. \<Sum>j<N. (\<Sum>k<m. (x i * L i k) * (x j * L j k)) + x i * D i j * x j)"
    using assms
    by (intro sum.cong refl) (simp add: algebra_simps sum_distrib_left sum_distrib_right)
  also have "\<dots> = (\<Sum>i<N. \<Sum>j<N. \<Sum>k<m. (x i * L i k) * (x j * L j k)) +
      (\<Sum>i<N. \<Sum>j<N. x i * D i j * x j)"
    by (simp add: sum.distrib)
  also have "(\<Sum>i<N. \<Sum>j<N. \<Sum>k<m. (x i * L i k) * (x j * L j k)) =
      (\<Sum>k<m. \<Sum>i<N. \<Sum>j<N. (x i * L i k) * (x j * L j k))"
  proof -
    have "(\<Sum>i<N. \<Sum>j<N. \<Sum>k<m. (x i * L i k) * (x j * L j k)) =
        (\<Sum>i<N. \<Sum>k<m. \<Sum>j<N. (x i * L i k) * (x j * L j k))"
      by (intro sum.cong refl) (rule sum.swap)
    also have "\<dots> = (\<Sum>k<m. \<Sum>i<N. \<Sum>j<N. (x i * L i k) * (x j * L j k))"
      by (rule sum.swap)
    finally show ?thesis .
  qed
  also have "\<dots> = (\<Sum>k<m. (\<Sum>i<N. x i * L i k) * (\<Sum>j<N. x j * L j k))"
    by (simp add: sum_product)
  finally show ?thesis .
qed

lemma quad_restrict:
  assumes "N \<le> (n::nat)" and "\<forall>i. N \<le> i \<longrightarrow> x i = (0::real)"
  shows "(\<Sum>i<n. \<Sum>j<n. x i * S i j * x j) = (\<Sum>i<N. \<Sum>j<N. x i * S i j * x j)"
proof -
  have inner: "(\<Sum>j<n. x i * S i j * x j) = (\<Sum>j<N. x i * S i j * x j)" for i
  proof (rule sum.mono_neutral_right)
    show "{..<N} \<subseteq> {..<n}" using assms(1) by auto
    show "\<forall>j\<in>{..<n} - {..<N}. x i * S i j * x j = 0" using assms(2) by auto
  qed simp
  have "(\<Sum>i<n. \<Sum>j<N. x i * S i j * x j) = (\<Sum>i<N. \<Sum>j<N. x i * S i j * x j)"
  proof (rule sum.mono_neutral_right)
    show "{..<N} \<subseteq> {..<n}" using assms(1) by auto
    show "\<forall>i\<in>{..<n} - {..<N}. (\<Sum>j<N. x i * S i j * x j) = 0" using assms(2) by auto
  qed simp
  then show ?thesis by (simp add: inner)
qed

text \<open>
  The step of Cholesky's algorithm on a positive-definite matrix: when the columns before
  \<open>m\<close> have positive pivots, the quadratic form at a suitable vector is the pivot of
  column \<open>m\<close>.
\<close>

lemma pivot_as_quadratic_form:
  assumes m: "m < n"
    and sym: "\<forall>i<n. \<forall>j<n. S i j = S j i"
    and piv: "\<forall>j<m. 0 < pivot S j"
  shows "\<exists>x. x m = 1 \<and> (\<Sum>i<n. \<Sum>j<n. x i * S i j * x j) = pivot S m"
proof -
  let ?L = "tril (chol S)"
  let ?X = "tri_inv ?L"
  define l where "l k = chol S m k" for k
  define u where "u i = - (\<Sum>k<m. ?X k i * l k)" for i
  define x where "x i = (if i < m then u i else if i = m then 1 else 0)" for i
  define D where "D a b = (if a = m \<and> b = m then pivot S m else 0)" for a b :: nat
  have diag: "\<forall>i<m. ?L i i \<noteq> 0"
    using piv by (auto simp add: tril_diag chol_diag)
  have XL: "meq m (mm m ?X ?L) ident"
    by (rule tri_inv_left[OF lower_tril diag])
  have symm: "\<forall>i<m. \<forall>j<m. S i j = S j i" using sym m by simp
  have pivm: "\<forall>j<m. 0 < pivot S j" using piv by simp
  have LL: "meq m (mm m ?L (transp ?L)) S"
    by (rule chol_factor[OF pivm symm])
  text \<open>The first \<open>m\<close> entries of \<open>x\<close> solve the triangular system.\<close>
  have w: "(\<Sum>a<m. u a * ?L a k) = - l k" if k: "k < m" for k
  proof -
    have "u a * ?L a k = - (\<Sum>k'<m. l k' * (?X k' a * ?L a k))" for a
      by (simp add: u_def sum_distrib_left mult_ac)
    then have "(\<Sum>a<m. u a * ?L a k) = - (\<Sum>a<m. \<Sum>k'<m. l k' * (?X k' a * ?L a k))"
      by (simp add: sum_negf)
    also have "(\<Sum>a<m. \<Sum>k'<m. l k' * (?X k' a * ?L a k)) = (\<Sum>k'<m. \<Sum>a<m. l k' * (?X k' a * ?L a k))"
      by (rule sum.swap)
    also have "\<dots> = (\<Sum>k'<m. l k' * mm m ?X ?L k' k)"
      by (simp add: mm_def sum_distrib_left)
    also have "\<dots> = (\<Sum>k'<m. l k' * ident k' k)"
      using XL k by (intro sum.cong refl) (simp add: meq_def)
    also have "\<dots> = l k"
      using k by (simp add: ident_def if_distrib[of "\<lambda>x. _ * x"] sum.delta cong: if_cong)
    finally show ?thesis .
  qed
  have Lm: "?L m k = l k" if "k < m" for k
    using that by (simp add: tril_def l_def)
  have g: "(\<Sum>a<Suc m. x a * ?L a k) = 0" if k: "k < m" for k
  proof -
    have "(\<Sum>a<m. x a * ?L a k) = (\<Sum>a<m. u a * ?L a k)"
      by (intro sum.cong refl) (simp add: x_def)
    then show ?thesis using w[OF k] Lm[OF k] by (simp add: x_def)
  qed
  text \<open>The leading block of order \<open>m + 1\<close> is the product of the rows so far, plus the pivot.\<close>
  have dec: "\<forall>a<Suc m. \<forall>b<Suc m. S a b = (\<Sum>k<m. ?L a k * ?L b k) + D a b"
  proof (intro allI impI)
    fix a b assume a: "a < Suc m" and b: "b < Suc m"
    consider "a < m" "b < m" | "a = m" "b < m" | "a < m" "b = m" | "a = m" "b = m"
      using a b by linarith
    then show "S a b = (\<Sum>k<m. ?L a k * ?L b k) + D a b"
    proof cases
      case 1
      then show ?thesis using LL by (simp add: meq_def mm_def transp_def D_def)
    next
      case 2
      have "(\<Sum>k<m. ?L m k * ?L b k) = S m b"
        using chol_rows[of b m m S] 2 piv by simp
      then show ?thesis using 2 by (simp add: D_def)
    next
      case 3
      have "(\<Sum>k<m. ?L m k * ?L a k) = S m a"
        using chol_rows[of a m m S] 3 piv by simp
      moreover have "S a m = S m a" using sym m 3 by simp
      ultimately show ?thesis using 3 by (simp add: D_def mult.commute)
    next
      case 4
      have "(\<Sum>k<m. ?L m k * ?L m k) = (\<Sum>k<m. chol S m k * chol S m k)"
        by (intro sum.cong refl) (simp add: tril_def)
      then show ?thesis using 4 by (simp add: D_def pivot_def)
    qed
  qed
  have zero: "\<forall>i. Suc m \<le> i \<longrightarrow> x i = 0" by (simp add: x_def)
  have "(\<Sum>i<n. \<Sum>j<n. x i * S i j * x j) = (\<Sum>i<Suc m. \<Sum>j<Suc m. x i * S i j * x j)"
    using quad_restrict[OF _ zero, of n S] m by simp
  also have "\<dots> = (\<Sum>k<m. (\<Sum>i<Suc m. x i * ?L i k) * (\<Sum>j<Suc m. x j * ?L j k)) +
         (\<Sum>i<Suc m. \<Sum>j<Suc m. x i * D i j * x j)"
    by (rule quad_decomp[OF dec])
  also have "(\<Sum>k<m. (\<Sum>i<Suc m. x i * ?L i k) * (\<Sum>j<Suc m. x j * ?L j k)) = 0"
    using g by simp
  also have "(\<Sum>i<Suc m. \<Sum>j<Suc m. x i * D i j * x j) = pivot S m"
    by (simp add: D_def x_def)
  finally have "(\<Sum>i<n. \<Sum>j<n. x i * S i j * x j) = pivot S m" by simp
  moreover have "x m = 1" by (simp add: x_def)
  ultimately show ?thesis by blast
qed

lemma spd_pivot_pos:
  assumes "spd n S"
  shows "j < n \<Longrightarrow> 0 < pivot S j"
proof (induction j rule: less_induct)
  case (less m)
  have sym: "\<forall>i<n. \<forall>j<n. S i j = S j i" using assms by (simp add: spd_def)
  have piv: "\<forall>j<m. 0 < pivot S j" using less by simp
  from pivot_as_quadratic_form[OF less.prems sym piv] obtain x where
    x: "x m = 1" "(\<Sum>i<n. \<Sum>j<n. x i * S i j * x j) = pivot S m" by blast
  have "\<exists>i<n. x i \<noteq> 0" using x(1) less.prems by (intro exI[of _ m]) simp
  then have "0 < (\<Sum>i<n. \<Sum>j<n. x i * S i j * x j)" using assms by (simp add: spd_def)
  then show ?case using x(2) by simp
qed

lemma view_L: "view (CHR ''L'') A n = mat n A"
  by (intro ext) (simp add: view_def mat_def)

lemma put_tri_0: "put_tri UPLO 0 LDA f A = A"
  by (simp add: put_tri_def map_nth)

text \<open>The Cholesky kernel on a matrix whose pivots are all positive.\<close>

lemma potrf_factor:
  assumes "\<forall>j<n. 0 < pivot (mat n A) j"
  shows "snd (potrf (CHR ''L'') n A n) = put_tri (CHR ''L'') n n (chol (mat n A)) A"
    and "0 < n \<Longrightarrow> fst (potrf (CHR ''L'') n A n) = 0"
proof -
  have "find (\<lambda>j. pivot (mat n A) j \<le> 0) [0..<n] = None"
    using assms by (auto simp add: find_None_iff)
  then show "snd (potrf (CHR ''L'') n A n) = put_tri (CHR ''L'') n n (chol (mat n A)) A"
    and "0 < n \<Longrightarrow> fst (potrf (CHR ''L'') n A n) = 0"
    by (cases "n = 0"; simp add: potrf_def view_L put_tri_0 Let_def)+
qed

lemma potrf_entry:
  assumes piv: "\<forall>j<n. 0 < pivot (mat n A) j" and i: "i < n" and j: "j < n" and len: "n * n \<le> length A"
  shows "mat n (snd (potrf (CHR ''L'') n A n)) i j = (if j \<le> i then chol (mat n A) i j else mat n A i j)"
proof -
  have "i + j * n < length A" using index_less[OF i j] len by simp
  then show ?thesis
    using put_tri_nth_L[OF i j, of n A "chol (mat n A)"] by (simp add: potrf_factor(1)[OF piv] mat_def)
qed

text \<open>The inversion kernel on a buffer whose lower triangle has no zero on its diagonal.\<close>

lemma potri_inverse:
  assumes "\<forall>i<n. mat n F i i \<noteq> 0"
  shows "snd (potri (CHR ''L'') n F n) =
     put_tri (CHR ''L'') n n (\<lambda>i j. \<Sum>k<n. tri_inv (tril (mat n F)) k i * tri_inv (tril (mat n F)) k j) F"
proof -
  have t: "(\<lambda>i j. if i < j then 0 else view (CHR ''L'') F n i j) = tril (mat n F)"
    by (intro ext) (simp add: tril_def view_L)
  have "find (\<lambda>i. tril (mat n F) i i = 0) [0..<n] = None"
    using assms by (auto simp add: find_None_iff tril_def)
  then show ?thesis
    by (cases "n = 0") (simp_all add: potri_def t put_tri_0 Let_def)
qed

lemma potri_entry:
  assumes d: "\<forall>i<n. mat n F i i \<noteq> 0" and i: "i < n" and j: "j < n" and len: "n * n \<le> length F"
  shows "mat n (snd (potri (CHR ''L'') n F n)) i j =
     (if j \<le> i then mm n (transp (tri_inv (tril (mat n F)))) (tri_inv (tril (mat n F))) i j
      else mat n F i j)"
proof -
  have "i + j * n < length F" using index_less[OF i j] len by simp
  then show ?thesis
    using put_tri_nth_L[OF i j, of n F]
    by (simp add: potri_inverse[OF d] mat_def mm_def transp_def)
qed

text \<open>
  The Cholesky branch on a positive-definite overlap, with the kernels of LAPACK: what is
  in \<open>ortho1\<close> and \<open>ortho2\<close>, in terms of the factor \<open>L\<close> the kernel left in the
  scratch buffer and of \<open>X\<close>, the inverse of \<open>L\<close>.
\<close>

lemma lapack_sel: "Cholesky (lapack eig) = potrf" "CholeskyInv (lapack eig) = potri"
  by (simp_all add: lapack_def)

lemma cholesky_branch_lapack:
  assumes spd: "spd n (mat n Sb)" and len: "length Sb = n * n"
  shows "\<exists>L. lower n L \<and> (\<forall>i<n. 0 < L i i) \<and>
     meq n (mm n L (transp L)) (mat n Sb) \<and>
     meq n (mat n (fst (snd (cholesky_branch (lapack eig) n
              (replicate (n * n) 0, replicate (n * n) 0, Sb, h))))) L \<and>
     (\<forall>i<n. \<forall>j<n. mat n (fst (cholesky_branch (lapack eig) n
              (replicate (n * n) 0, replicate (n * n) 0, Sb, h))) i j =
        (if i < j then 0
         else mm n (transp L) (mm n (transp (tri_inv L)) (tri_inv L)) i j))"
proof -
  let ?S = "mat n Sb"
  let ?F = "snd (potrf (CHR ''L'') n Sb n)"
  let ?L = "tril (mat n ?F)"
  let ?X = "tri_inv ?L"
  let ?G = "snd (potri (CHR ''L'') n ?F n)"
  let ?r = "cholesky_branch (lapack eig) n (replicate (n * n) 0, replicate (n * n) 0, Sb, h)"
  have piv: "\<forall>j<n. 0 < pivot ?S j" using spd_pivot_pos[OF spd] by simp
  have sym: "\<forall>i<n. \<forall>j<n. ?S i j = ?S j i" using spd by (simp add: spd_def)
  have lenF: "length ?F = n * n" by (simp add: potrf_factor(1)[OF piv] put_tri_length len)
  have Fent: "mat n ?F i j = (if j \<le> i then chol ?S i j else ?S i j)" if "i < n" "j < n" for i j
    using potrf_entry[OF piv that] len by simp
  have f1: "meq n ?L (tril (chol ?S))"
    using Fent by (simp add: meq_def tril_def)
  have f2: "\<forall>i<n. 0 < ?L i i"
    using Fent piv by (simp add: tril_def chol_diag)
  have f3: "meq n (mm n ?L (transp ?L)) ?S"
    using meq_trans[OF meq_mm[OF f1 meq_transp[OF f1]] chol_factor[OF piv sym]] .
  have Fd: "\<forall>i<n. mat n ?F i i \<noteq> 0" using f2 by (auto simp add: tril_def)
  have Gent: "mat n ?G i j = mm n (transp ?X) ?X i j" if "i < n" "j < n" "j \<le> i" for i j
    using potri_entry[OF Fd that(1,2)] lenF that(3) by simp
  have O2: "mat n (fst (snd ?r)) i j = ?L i j" if i: "i < n" and j: "j < n" for i j
  proof -
    have "i + j * n < n * n" using index_less[OF i j] .
    then have "fst (snd ?r) ! (i + j * n) = (if j \<le> i then ?F ! (i + j * n) else replicate (n * n) 0 ! (i + j * n))"
      using cholesky_branch_O2_nth[OF i j, of "replicate (n * n) 0" "lapack eig" "replicate (n * n) 0" Sb h]
      unfolding lapack_sel by simp
    then show ?thesis
      using \<open>i + j * n < n * n\<close> by (auto simp add: mat_def tril_def)
  qed
  have O1: "mat n (fst ?r) i j =
        (if i < j then 0 else mm n (transp ?L) (mm n (transp ?X) ?X) i j)"
    if i: "i < n" and j: "j < n" for i j
  proof (cases "i < j")
    case True
    then show ?thesis
      using cholesky_branch_O1_nth[OF i j, of "replicate (n * n) 0" "replicate (n * n) 0" "lapack eig"]
      by (simp add: mat_def)
  next
    case False
    have "fst ?r ! (i + j * n) =
        (if i < j then 0
         else (\<Sum>l<n. (if i \<le> l then ?F ! (l + i * n) else replicate (n * n) 0 ! (l + i * n)) * ?G ! (l + j * n)))"
      using cholesky_branch_O1_nth[OF i j, of "replicate (n * n) 0" "replicate (n * n) 0" "lapack eig" Sb h]
      unfolding lapack_sel by simp
    then have "mat n (fst ?r) i j =
        (\<Sum>l<n. (if i \<le> l then ?F ! (l + i * n) else replicate (n * n) 0 ! (l + i * n)) * ?G ! (l + j * n))"
      using False by (simp add: mat_def)
    also have "\<dots> = (\<Sum>l<n. ?L l i * mm n (transp ?X) ?X l j)"
    proof (intro sum.cong refl)
      fix l assume "l \<in> {..<n}"
      then have l: "l < n" by simp
      have li: "l + i * n < n * n" using index_less[OF l i] .
      show "(if i \<le> l then ?F ! (l + i * n) else replicate (n * n) 0 ! (l + i * n)) * ?G ! (l + j * n)
          = ?L l i * mm n (transp ?X) ?X l j"
      proof (cases "i \<le> l")
        case True
        then have "j \<le> l" using False by simp
        from Gent[OF l j this] True show ?thesis by (simp add: mat_def tril_def)
      next
        case False
        then show ?thesis using li by (simp add: tril_def)
      qed
    qed
    finally show ?thesis using False by (simp add: mm_def transp_def)
  qed
  have "meq n (mat n (fst (snd ?r))) ?L" using O2 by (simp add: meq_def)
  with lower_tril f2 f3 O1 show ?thesis
    by (intro exI[of _ ?L]) simp
qed

text \<open>The inverse of \<open>L L\<^sup>T\<close> is \<open>X\<^sup>T X\<close>, where \<open>X\<close> inverts \<open>L\<close>.\<close>

lemma gram_inverse_left:
  assumes LL: "meq n (mm n L (transp L)) S"
    and XL: "meq n (mm n X L) ident" and LX: "meq n (mm n L X) ident"
  shows "meq n (mm n (mm n (transp X) X) S) ident"
proof -
  have 1: "meq n (mm n (mm n (transp X) X) S) (mm n (mm n (transp X) X) (mm n L (transp L)))"
    by (rule meq_mm[OF meq_refl meq_sym[OF LL]])
  have 2: "mm n (mm n (transp X) X) (mm n L (transp L)) =
      mm n (transp X) (mm n (mm n X L) (transp L))"
    by (simp only: mm_assoc)
  have 3: "meq n (mm n (transp X) (mm n (mm n X L) (transp L)))
      (mm n (transp X) (mm n ident (transp L)))"
    by (rule meq_mm[OF meq_refl meq_mm[OF XL meq_refl]])
  have 4: "meq n (mm n (transp X) (mm n ident (transp L))) (mm n (transp X) (transp L))"
    by (rule meq_mm[OF meq_refl meq_mm_ident_left])
  have 5: "mm n (transp X) (transp L) = transp (mm n L X)"
    by (simp only: transp_mm)
  have 6: "meq n (transp (mm n L X)) ident"
    using meq_transp[OF LX] by (simp only: transp_ident)
  from 1 have "meq n (mm n (mm n (transp X) X) S) (mm n (transp X) (mm n (mm n X L) (transp L)))"
    by (simp only: 2)
  from meq_trans[OF meq_trans[OF this 3] 4]
  have "meq n (mm n (mm n (transp X) X) S) (transp (mm n L X))" by (simp only: 5)
  from meq_trans[OF this 6] show ?thesis .
qed

lemma gram_inverse_right:
  assumes LL: "meq n (mm n L (transp L)) S"
    and XL: "meq n (mm n X L) ident" and LX: "meq n (mm n L X) ident"
  shows "meq n (mm n S (mm n (transp X) X)) ident"
proof -
  have 1: "meq n (mm n S (mm n (transp X) X)) (mm n (mm n L (transp L)) (mm n (transp X) X))"
    by (rule meq_mm[OF meq_sym[OF LL] meq_refl])
  have 2: "mm n (mm n L (transp L)) (mm n (transp X) X) =
      mm n L (mm n (transp (mm n X L)) X)"
    by (simp only: mm_assoc transp_mm)
  have 3: "meq n (mm n L (mm n (transp (mm n X L)) X)) (mm n L (mm n ident X))"
    using meq_mm[OF meq_refl meq_mm[OF meq_transp[OF XL] meq_refl]]
    by (simp only: transp_ident)
  have 4: "meq n (mm n L (mm n ident X)) (mm n L X)"
    by (rule meq_mm[OF meq_refl meq_mm_ident_left])
  from 1 have "meq n (mm n S (mm n (transp X) X)) (mm n L (mm n (transp (mm n X L)) X))"
    by (simp only: 2)
  from meq_trans[OF meq_trans[OF meq_trans[OF this 3] 4] LX] show ?thesis .
qed

text \<open>\<open>L\<^sup>T X\<^sup>T X\<close> is \<open>X\<close> again.\<close>

lemma transp_factor_inverse:
  assumes XL: "meq n (mm n X L) ident"
  shows "meq n (mm n (transp L) (mm n (transp X) X)) X"
proof -
  have 1: "mm n (transp L) (mm n (transp X) X) = mm n (transp (mm n X L)) X"
    by (simp only: mm_assoc transp_mm)
  have 2: "meq n (mm n (transp (mm n X L)) X) (mm n ident X)"
    using meq_mm[OF meq_transp[OF XL] meq_refl] by (simp only: transp_ident)
  have 3: "meq n (mm n ident X) X" by (rule meq_mm_ident_left)
  from meq_trans[OF 2 3] show ?thesis by (simp only: 1)
qed

text \<open>
  \<^verbatim>\<open>computeOrtho\<close> on a positive-definite overlap, with the kernels of LAPACK.
\<close>

lemma computeOrtho_spd:
  assumes ld: "load (memManager s) (overlap s) = Some Sov"
    and len: "length Sov = nBasis s * nBasis s" and sq: "nSQ s = nBasis s * nBasis s"
    and spd: "spd (nBasis s) (mat (nBasis s) Sov)"
  shows "\<exists>s' O1 O2 L. computeOrtho (lapack eig) junk s = Some s' \<and>
     load (memManager s') (ortho1 s') = Some O1 \<and> load (memManager s') (ortho2 s') = Some O2 \<and>
     lower (nBasis s) L \<and> (\<forall>i<nBasis s. 0 < L i i) \<and>
     meq (nBasis s) (mm (nBasis s) L (transp L)) (mat (nBasis s) Sov) \<and>
     meq (nBasis s) (mat (nBasis s) O2) L \<and>
     meq (nBasis s) (mat (nBasis s) O1) (tri_inv L) \<and>
     (\<forall>i<nBasis s. \<forall>j<nBasis s. mat (nBasis s) O1 i j =
        (if i < j then 0
         else mm (nBasis s) (transp L) (mm (nBasis s) (transp (tri_inv L)) (tri_inv L)) i j))"
proof -
  define n where "n = nBasis s"
  define h where "h = memManager s"
  define h3 where "h3 = h @ [Some (map junk [0..<nSQ s]), Some (map junk [0..<nSQ s]), Some (map junk [0..<nSQ s])]"
  define r where "r = cholesky_branch (lapack eig) n (replicate (n * n) 0, replicate (n * n) 0, Sov, h3)"
  define O1 where "O1 = fst r"
  define O2 where "O2 = fst (snd r)"
  have spd': "spd n (mat n Sov)" and len': "length Sov = n * n"
    using spd len by (simp_all add: n_def)
  from cholesky_branch_lapack[OF spd' len', of eig h3]
  obtain L where L: "lower n L" "\<forall>i<n. 0 < L i i"
    "meq n (mm n L (transp L)) (mat n Sov)"
    "meq n (mat n O2) L"
    and L5: "\<forall>i<n. \<forall>j<n. mat n O1 i j =
        (if i < j then 0 else mm n (transp L) (mm n (transp (tri_inv L)) (tri_inv L)) i j)"
    unfolding r_def[symmetric] O1_def[symmetric] O2_def[symmetric] by blast
  have nz: "\<forall>i<n. L i i \<noteq> 0" using L(2) by auto
  have XL: "meq n (mm n (tri_inv L) L) ident" by (rule tri_inv_left[OF L(1) nz])
  have O1X: "meq n (mat n O1) (tri_inv L)"
    unfolding meq_def
  proof (intro allI impI)
    fix i j assume i: "i < n" and j: "j < n"
    show "mat n O1 i j = tri_inv L i j"
    proof (cases "i < j")
      case True
      then show ?thesis using L5 i j by (simp add: tri_inv_upper)
    next
      case False
      have "mm n (transp L) (mm n (transp (tri_inv L)) (tri_inv L)) i j = tri_inv L i j"
        using transp_factor_inverse[OF XL] i j unfolding meq_def by blast
      then show ?thesis using L5 i j False by simp
    qed
  qed
  define s' where "s' = s\<lparr>ortho1 := length h, ortho2 := Suc (length h), orthoType := CHOLESKY,
                 memManager := h @ [Some O1, Some O2, None]\<rparr>"
  have "computeOrtho (lapack eig) junk s =
     (let h = memManager s;
          blk = Some (map junk [0..<nSQ s]);
          r = cholesky_branch (lapack eig) (nBasis s)
                (replicate (nSQ s) 0, replicate (nSQ s) 0, take (nSQ s) Sov, h @ [blk, blk, blk])
      in Some (s\<lparr>ortho1 := length h, ortho2 := Suc (length h), orthoType := CHOLESKY,
                 memManager := h @ [Some (fst r), Some (fst (snd r)), None]\<rparr>))"
    by (rule computeOrtho_eq[OF ld]) (simp_all add: len sq)
  also have "\<dots> = Some s'"
    unfolding Let_def s'_def O1_def O2_def r_def h3_def h_def n_def sq
    using len by simp
  finally have co: "computeOrtho (lapack eig) junk s = Some s'" .
  have l1: "load (memManager s') (ortho1 s') = Some O1"
    by (simp add: s'_def load_def nth_append)
  have l2: "load (memManager s') (ortho2 s') = Some O2"
    by (simp add: s'_def load_def nth_append)
  have "computeOrtho (lapack eig) junk s = Some s' \<and>
     load (memManager s') (ortho1 s') = Some O1 \<and> load (memManager s') (ortho2 s') = Some O2 \<and>
     lower n L \<and> (\<forall>i<n. 0 < L i i) \<and>
     meq n (mm n L (transp L)) (mat n Sov) \<and>
     meq n (mat n O2) L \<and>
     meq n (mat n O1) (tri_inv L) \<and>
     (\<forall>i<n. \<forall>j<n. mat n O1 i j =
        (if i < j then 0
         else mm n (transp L) (mm n (transp (tri_inv L)) (tri_inv L)) i j))"
    using co l1 l2 L L5 O1X by blast
  then show ?thesis unfolding n_def by blast
qed

lemma meq_lower: "meq n A L \<Longrightarrow> lower n L \<Longrightarrow> lower n A"
  by (simp add: meq_def lower_def)

text \<open>
  Claim C1. For a symmetric positive-definite overlap of size \<open>nBasis\<close> (held in a
  block of \<open>nSQ = nBasis * nBasis\<close> entries), \<open>computeOrtho\<close> with the LAPACK kernels
  returns, \<open>ortho2\<close> is lower triangular with a positive diagonal and
  \<open>ortho2 * ortho2\<^sup>T\<close> is the overlap (it is the Cholesky factor \<open>L\<close>, every entry
  above the diagonal being zero), and \<open>ortho1\<close> is \<open>L\<^sup>T * S\<^sup>-\<^sup>1\<close> below and on
  the diagonal and zero above it, \<open>S\<^sup>-\<^sup>1\<close> being a two-sided inverse of the overlap.
\<close>

theorem computeOrtho_cholesky_factor:
  "load (memManager s) (overlap s) = Some Sov \<and> length Sov = nBasis s * nBasis s \<and>
   nSQ s = nBasis s * nBasis s \<and> spd (nBasis s) (mat (nBasis s) Sov) \<longrightarrow>
   (\<exists>s' O1 O2 Sinv. computeOrtho (lapack eig) junk s = Some s' \<and>
      load (memManager s') (ortho1 s') = Some O1 \<and> load (memManager s') (ortho2 s') = Some O2 \<and>
      lower (nBasis s) (mat (nBasis s) O2) \<and> (\<forall>i<nBasis s. 0 < mat (nBasis s) O2 i i) \<and>
      meq (nBasis s) (mm (nBasis s) (mat (nBasis s) O2) (transp (mat (nBasis s) O2)))
        (mat (nBasis s) Sov) \<and>
      meq (nBasis s) (mm (nBasis s) Sinv (mat (nBasis s) Sov)) ident \<and>
      meq (nBasis s) (mm (nBasis s) (mat (nBasis s) Sov) Sinv) ident \<and>
      (\<forall>i<nBasis s. \<forall>j<nBasis s. mat (nBasis s) O1 i j =
         (if i < j then 0 else mm (nBasis s) (transp (mat (nBasis s) O2)) Sinv i j)))"
proof
  assume a: "load (memManager s) (overlap s) = Some Sov \<and> length Sov = nBasis s * nBasis s \<and>
   nSQ s = nBasis s * nBasis s \<and> spd (nBasis s) (mat (nBasis s) Sov)"
  define n where "n = nBasis s"
  from a have ld: "load (memManager s) (overlap s) = Some Sov"
    and len: "length Sov = nBasis s * nBasis s" and sq: "nSQ s = nBasis s * nBasis s"
    and spd: "spd (nBasis s) (mat (nBasis s) Sov)" by simp_all
  from computeOrtho_spd[OF ld len sq spd, of eig junk]
  obtain s' O1 O2 L where r: "computeOrtho (lapack eig) junk s = Some s'"
    "load (memManager s') (ortho1 s') = Some O1" "load (memManager s') (ortho2 s') = Some O2"
    and L: "lower n L" "\<forall>i<n. 0 < L i i" "meq n (mm n L (transp L)) (mat n Sov)"
    and O2: "meq n (mat n O2) L"
    and O1: "\<forall>i<n. \<forall>j<n. mat n O1 i j =
        (if i < j then 0 else mm n (transp L) (mm n (transp (tri_inv L)) (tri_inv L)) i j)"
    unfolding n_def by blast
  define Sinv where "Sinv = mm n (transp (tri_inv L)) (tri_inv L)"
  have nz: "\<forall>i<n. L i i \<noteq> 0" using L(2) by auto
  have XL: "meq n (mm n (tri_inv L) L) ident" by (rule tri_inv_left[OF L(1) nz])
  have LX: "meq n (mm n L (tri_inv L)) ident" by (rule tri_inv_right[OF L(1) nz])
  have low: "lower n (mat n O2)" by (rule meq_lower[OF O2 L(1)])
  have pos: "\<forall>i<n. 0 < mat n O2 i i" using O2 L(2) by (simp add: meq_def)
  have prod: "meq n (mm n (mat n O2) (transp (mat n O2))) (mat n Sov)"
    by (rule meq_trans[OF meq_mm[OF O2 meq_transp[OF O2]] L(3)])
  have inv1: "meq n (mm n Sinv (mat n Sov)) ident"
    unfolding Sinv_def by (rule gram_inverse_left[OF L(3) XL LX])
  have inv2: "meq n (mm n (mat n Sov) Sinv) ident"
    unfolding Sinv_def by (rule gram_inverse_right[OF L(3) XL LX])
  have o1: "\<forall>i<n. \<forall>j<n. mat n O1 i j =
         (if i < j then 0 else mm n (transp (mat n O2)) Sinv i j)"
  proof (intro allI impI)
    fix i j assume i: "i < n" and j: "j < n"
    have "mm n (transp (mat n O2)) Sinv i j = mm n (transp L) Sinv i j"
      by (rule mm_cong_left[OF meq_transp[OF O2] i])
    then show "mat n O1 i j = (if i < j then 0 else mm n (transp (mat n O2)) Sinv i j)"
      using O1 i j by (simp add: Sinv_def)
  qed
  have "computeOrtho (lapack eig) junk s = Some s' \<and>
      load (memManager s') (ortho1 s') = Some O1 \<and> load (memManager s') (ortho2 s') = Some O2 \<and>
      lower n (mat n O2) \<and> (\<forall>i<n. 0 < mat n O2 i i) \<and>
      meq n (mm n (mat n O2) (transp (mat n O2))) (mat n Sov) \<and>
      meq n (mm n Sinv (mat n Sov)) ident \<and>
      meq n (mm n (mat n Sov) Sinv) ident \<and>
      (\<forall>i<n. \<forall>j<n. mat n O1 i j =
         (if i < j then 0 else mm n (transp (mat n O2)) Sinv i j))"
    using r low pos prod inv1 inv2 o1 by blast
  then show "\<exists>s' O1 O2 Sinv. computeOrtho (lapack eig) junk s = Some s' \<and>
      load (memManager s') (ortho1 s') = Some O1 \<and> load (memManager s') (ortho2 s') = Some O2 \<and>
      lower (nBasis s) (mat (nBasis s) O2) \<and> (\<forall>i<nBasis s. 0 < mat (nBasis s) O2 i i) \<and>
      meq (nBasis s) (mm (nBasis s) (mat (nBasis s) O2) (transp (mat (nBasis s) O2)))
        (mat (nBasis s) Sov) \<and>
      meq (nBasis s) (mm (nBasis s) Sinv (mat (nBasis s) Sov)) ident \<and>
      meq (nBasis s) (mm (nBasis s) (mat (nBasis s) Sov) Sinv) ident \<and>
      (\<forall>i<nBasis s. \<forall>j<nBasis s. mat (nBasis s) O1 i j =
         (if i < j then 0 else mm (nBasis s) (transp (mat (nBasis s) O2)) Sinv i j))"
    unfolding n_def by blast
qed

lemma ex_overlap_spd: "spd 2 (mat 2 ex_overlap)"
  unfolding spd_def
proof (intro conjI allI impI)
  fix i j :: nat assume "i < 2" "j < 2"
  then have "(i = 0 \<or> i = 1) \<and> (j = 0 \<or> j = 1)" by auto
  then show "mat 2 ex_overlap i j = mat 2 ex_overlap j i"
    by (auto simp add: mat_def ex_overlap_def)
next
  fix x :: "nat \<Rightarrow> real" assume "\<exists>i<2. x i \<noteq> 0"
  then have nz: "x 0 \<noteq> 0 \<or> x 1 \<noteq> 0" by (auto simp add: less_2_cases_iff)
  have "(\<Sum>i<2. \<Sum>j<2. x i * mat 2 ex_overlap i j * x j) = x 0 * x 0 + x 0 * x 1 + x 1 * x 1"
    by (simp add: numeral_2_eq_2 mat_def ex_overlap_def algebra_simps)
  also have "\<dots> = (x 0 + x 1 / 2)\<^sup>2 + 3 / 4 * (x 1)\<^sup>2"
    by (simp add: power2_eq_square algebra_simps)
  also have "0 < (x 0 + x 1 / 2)\<^sup>2 + 3 / 4 * (x 1)\<^sup>2"
  proof (cases "x 1 = 0")
    case True
    then show ?thesis using nz by simp
  next
    case False
    then have "0 < 3 / 4 * (x 1)\<^sup>2" by simp
    moreover have "0 \<le> (x 0 + x 1 / 2)\<^sup>2" by simp
    ultimately show ?thesis by linarith
  qed
  finally show "0 < (\<Sum>i<2. \<Sum>j<2. x i * mat 2 ex_overlap i j * x j)" .
qed

lemma chol2_unique:
  assumes low: "lower 2 A" and pos: "\<forall>i<2. 0 < A i i"
    and prod: "meq 2 (mm 2 A (transp A)) (mat 2 ex_overlap)"
  shows "A 0 0 = 1 \<and> A (Suc 0) 0 = 1 / 2 \<and> A (Suc 0) (Suc 0) = sqrt (3 / 4) \<and> A 0 (Suc 0) = 0"
proof -
  have z: "A 0 (Suc 0) = 0" using low by (simp add: lower_def)
  have p0: "0 < A 0 0" and p1: "0 < A (Suc 0) (Suc 0)" using pos by simp_all
  have e00: "mm 2 A (transp A) 0 0 = mat 2 ex_overlap 0 0"
    and e10: "mm 2 A (transp A) (Suc 0) 0 = mat 2 ex_overlap (Suc 0) 0"
    and e11: "mm 2 A (transp A) (Suc 0) (Suc 0) = mat 2 ex_overlap (Suc 0) (Suc 0)"
    using prod by (simp_all add: meq_def)
  from e00 have "A 0 0 * A 0 0 = 1"
    by (simp add: mm_def transp_def mat_def ex_overlap_def numeral_2_eq_2 z)
  then have a: "A 0 0 = 1" using p0 by (simp add: square_eq_1_iff)
  from e10 have b: "A (Suc 0) 0 = 1 / 2"
    by (simp add: mm_def transp_def mat_def ex_overlap_def numeral_2_eq_2 z a)
  from e11 have "A (Suc 0) (Suc 0) * A (Suc 0) (Suc 0) = 3 / 4"
    by (simp add: mm_def transp_def mat_def ex_overlap_def numeral_2_eq_2 z a b)
  then have "(A (Suc 0) (Suc 0))\<^sup>2 = 3 / 4" by (simp add: power2_eq_square)
  then have c: "sqrt (3 / 4) = A (Suc 0) (Suc 0)" using p1 by (intro real_sqrt_unique) simp_all
  from z a b c show ?thesis by simp
qed

lemma ex_state_pre:
  "load (memManager ex_state) (overlap ex_state) = Some ex_overlap \<and>
   length ex_overlap = nBasis ex_state * nBasis ex_state \<and>
   nSQ ex_state = nBasis ex_state * nBasis ex_state \<and>
   spd (nBasis ex_state) (mat (nBasis ex_state) ex_overlap)"
proof -
  have "nBasis ex_state = 2" by (simp add: ex_state_def)
  then show ?thesis using ex_overlap_spd
    by (simp add: ex_state_def load_def ex_overlap_def)
qed

theorem computeOrtho_cholesky_factor_witness:
  "\<forall>eig junk. \<exists>s' O1 O2. computeOrtho (lapack eig) junk ex_state = Some s' \<and>
     load (memManager s') (ortho1 s') = Some O1 \<and> load (memManager s') (ortho2 s') = Some O2 \<and>
     mat 2 O2 0 0 = 1 \<and> mat 2 O2 (Suc 0) 0 = 1 / 2 \<and> mat 2 O2 (Suc 0) (Suc 0) = sqrt (3 / 4) \<and>
     mat 2 O2 0 (Suc 0) = 0 \<and> mat 2 O1 0 (Suc 0) = 0"
proof (intro allI)
  fix eig junk
  have n: "nBasis ex_state = 2" by (simp add: ex_state_def)
  from computeOrtho_cholesky_factor[of ex_state ex_overlap eig junk] ex_state_pre
  obtain s' O1 O2 Sinv where r: "computeOrtho (lapack eig) junk ex_state = Some s'"
      "load (memManager s') (ortho1 s') = Some O1" "load (memManager s') (ortho2 s') = Some O2"
    and low: "lower 2 (mat 2 O2)" and pos: "\<forall>i<2. 0 < mat 2 O2 i i"
    and prod: "meq 2 (mm 2 (mat 2 O2) (transp (mat 2 O2))) (mat 2 ex_overlap)"
    and o1: "\<forall>i<2. \<forall>j<2. mat 2 O1 i j =
         (if i < j then 0 else mm 2 (transp (mat 2 O2)) Sinv i j)"
    unfolding n by blast
  from o1[rule_format, of 0 "Suc 0"] have "mat 2 O1 0 (Suc 0) = 0" by simp
  with chol2_unique[OF low pos prod] r
  show "\<exists>s' O1 O2. computeOrtho (lapack eig) junk ex_state = Some s' \<and>
     load (memManager s') (ortho1 s') = Some O1 \<and> load (memManager s') (ortho2 s') = Some O2 \<and>
     mat 2 O2 0 0 = 1 \<and> mat 2 O2 (Suc 0) 0 = 1 / 2 \<and> mat 2 O2 (Suc 0) (Suc 0) = sqrt (3 / 4) \<and>
     mat 2 O2 0 (Suc 0) = 0 \<and> mat 2 O1 0 (Suc 0) = 0"
    by (intro exI[of _ s'] exI[of _ O1] exI[of _ O2]) simp
qed

subsection \<open>The round trip of the transform pair\<close>

lemma mm_dg_right: "l < n \<Longrightarrow> mm n A (dg d) i l = A i l * d l"
  by (simp add: mm_def dg_def if_distrib[of "\<lambda>x. _ * x"] sum.delta cong: if_cong)

lemma mm_dg_left: "i < n \<Longrightarrow> mm n (dg d) B i j = d i * B i j"
  by (simp add: mm_def dg_def if_distrib[of "\<lambda>x. x * _"] sum.delta' cong: if_cong)

lemma dg_mm: "meq n (mm n (dg a) (dg b)) (dg (\<lambda>i. a i * b i))"
  by (simp add: meq_def mm_dg_left) (simp add: dg_def)

lemma dg_cong: "\<forall>i<n. a i = b i \<Longrightarrow> meq n (dg a) (dg b)"
  by (simp add: meq_def dg_def)

lemma dg_one: "\<forall>i<n. a i = 1 \<Longrightarrow> meq n (dg a) ident"
  by (simp add: meq_def dg_def ident_def)

lemma cj_cong: "meq n A B \<Longrightarrow> meq n (cj n V A) (cj n V B)"
  unfolding cj_def by (intro meq_mm meq_refl)

lemma cj_ident:
  assumes "meq n (mm n V (transp V)) ident"
  shows "meq n (cj n V ident) ident"
proof -
  have "meq n (cj n V ident) (mm n V (transp V))"
    unfolding cj_def by (intro meq_mm meq_refl meq_mm_ident_left)
  then show ?thesis using assms by (rule meq_trans)
qed

lemma cj_mm:
  assumes "meq n (mm n (transp V) V) ident"
  shows "meq n (mm n (cj n V A) (cj n V B)) (cj n V (mm n A B))"
proof -
  have 1: "mm n (cj n V A) (cj n V B) = mm n V (mm n A (mm n (mm n (transp V) V) (mm n B (transp V))))"
    by (simp only: cj_def mm_assoc)
  have 2: "meq n (mm n (mm n (transp V) V) (mm n B (transp V))) (mm n B (transp V))"
    by (rule meq_trans[OF meq_mm[OF assms meq_refl] meq_mm_ident_left])
  have 3: "meq n (mm n V (mm n A (mm n (mm n (transp V) V) (mm n B (transp V)))))
        (mm n V (mm n A (mm n B (transp V))))"
    by (intro meq_mm meq_refl 2)
  have 4: "mm n V (mm n A (mm n B (transp V))) = cj n V (mm n A B)"
    by (simp only: cj_def mm_assoc)
  show ?thesis using 3 by (simp only: 1 4)
qed

lemma lowdin_branch_eq:
  assumes eig: "HermetianEigen K (CHR ''V'') (CHR ''U'') n SCR1 n (map junk [0..<n]) = (INFO, V, w)"
  shows "lowdin_branch K junk n nsq (O1, O2, SCR1, h) =
     (let A = for_range 0 n (\<lambda>j. for_range 0 n (\<lambda>i b.
                b[i + j * n := V ! (i + j * n) / sqrt (w ! j)])) (map junk [0..<nsq]);
          B = for_range 0 n (\<lambda>j. for_range 0 n (\<lambda>i b.
                b[i + j * n := b ! (i + j * n) * w ! j])) A
      in (Gemm (CHR ''N'') (CHR ''T'') n n n 1 A n V n 0 O1 n,
          Gemm (CHR ''N'') (CHR ''T'') n n n 1 B n V n 0 O2 n,
          V,
          free (Suc (length h)) (free (length h)
            (h @ [Some (map junk [0..<n]), Some (map junk [0..<nsq])]))))"
  by (simp add: lowdin_branch_def Let_def malloc_def eig)

lemma lowdin_branch_entries:
  assumes eig: "HermetianEigen K (CHR ''V'') (CHR ''U'') n SCR1 n (map junk [0..<n]) = (INFO, V, w)"
    and l1: "n * n \<le> length O1" and l2: "n * n \<le> length O2" and l3: "n * n \<le> nsq"
    and i: "i < n" and j: "j < n"
  shows "mat n (fst (lowdin_branch K junk n nsq (O1, O2, SCR1, h))) i j =
           (\<Sum>l<n. mat n V i l / sqrt (w ! l) * mat n V j l)"
    and "mat n (fst (snd (lowdin_branch K junk n nsq (O1, O2, SCR1, h)))) i j =
           (\<Sum>l<n. mat n V i l / sqrt (w ! l) * w ! l * mat n V j l)"
proof -
  let ?A = "for_range 0 n (\<lambda>j. for_range 0 n (\<lambda>i b.
                b[i + j * n := V ! (i + j * n) / sqrt (w ! j)])) (map junk [0..<nsq])"
  let ?B = "for_range 0 n (\<lambda>j. for_range 0 n (\<lambda>i b.
                b[i + j * n := b ! (i + j * n) * w ! j])) ?A"
  have lenA: "length ?A = nsq" by (simp add: for2_update_length)
  have idx: "a + l * n < n * n" if "a < n" "l < n" for a l
    using index_less[OF that] by (simp add: mult.commute)
  have A: "?A ! (a + l * n) = V ! (a + l * n) / sqrt (w ! l)" if "a < n" "l < n" for a l
  proof -
    have "a + l * n < length (map junk [0..<nsq])" using idx[OF that] l3 by simp
    from for2_update_nth[OF that this, where hi = "\<lambda>_. n" and lo = "\<lambda>_. 0"
        and g = "\<lambda>i j _. V ! (i + j * n) / sqrt (w ! j)"] that
    show ?thesis by simp
  qed
  have B: "?B ! (a + l * n) = V ! (a + l * n) / sqrt (w ! l) * w ! l" if "a < n" "l < n" for a l
  proof -
    have "a + l * n < length ?A" using idx[OF that] l3 lenA by simp
    from for2_update_nth[OF that this, where hi = "\<lambda>_. n" and lo = "\<lambda>_. 0"
        and g = "\<lambda>i j old. old * w ! j"] that A[OF that]
    show ?thesis by simp
  qed
  have ij1: "i + j * n < length O1" and ij2: "i + j * n < length O2"
    using idx[OF i j] l1 l2 by simp_all
  have "mat n (fst (lowdin_branch K junk n nsq (O1, O2, SCR1, h))) i j =
      (\<Sum>l<n. ?A ! (i + l * n) * V ! (j + l * n))"
    by (simp add: lowdin_branch_eq[OF eig] Let_def mat_def Gemm_nth[OF i j le_refl ij1] opm_def)
  also have "\<dots> = (\<Sum>l<n. mat n V i l / sqrt (w ! l) * mat n V j l)"
    by (intro sum.cong refl) (simp add: A[OF i] mat_def)
  finally show "mat n (fst (lowdin_branch K junk n nsq (O1, O2, SCR1, h))) i j =
           (\<Sum>l<n. mat n V i l / sqrt (w ! l) * mat n V j l)" .
  have "mat n (fst (snd (lowdin_branch K junk n nsq (O1, O2, SCR1, h)))) i j =
      (\<Sum>l<n. ?B ! (i + l * n) * V ! (j + l * n))"
    by (simp add: lowdin_branch_eq[OF eig] Let_def mat_def Gemm_nth[OF i j le_refl ij2] opm_def)
  also have "\<dots> = (\<Sum>l<n. mat n V i l / sqrt (w ! l) * w ! l * mat n V j l)"
    by (intro sum.cong refl) (simp add: B[OF i] mat_def)
  finally show "mat n (fst (snd (lowdin_branch K junk n nsq (O1, O2, SCR1, h)))) i j =
           (\<Sum>l<n. mat n V i l / sqrt (w ! l) * w ! l * mat n V j l)" .
qed

lemma div_mul_square: "(r::real) \<noteq> 0 \<Longrightarrow> a / r * (r * r) = a * r"
  by simp

lemma inverse_square_mul: "(r::real) \<noteq> 0 \<Longrightarrow> 1 / r * (1 / r) * (r * r) = 1"
  by simp

lemma cj_dg: "cj n V (dg d) i j = (\<Sum>l<n. V i l * d l * V j l)"
  unfolding cj_def mm_def[of n V]
  by (intro sum.cong refl) (simp add: mm_dg_left transp_def)

lemma lowdin_branch_round_trip:
  assumes eig: "HermetianEigen K (CHR ''V'') (CHR ''U'') n SCR1 n (map junk [0..<n]) = (INFO, V, w)"
    and l1: "n * n \<le> length O1" and l2: "n * n \<le> length O2" and l3: "n * n \<le> nsq"
    and ok: "eigen_ok n SCR1 V w"
  shows "meq n (mm n (mat n (fst (lowdin_branch K junk n nsq (O1, O2, SCR1, h))))
                     (mat n (fst (snd (lowdin_branch K junk n nsq (O1, O2, SCR1, h)))))) ident"
    and "meq n (mm n (mm n (mat n (fst (lowdin_branch K junk n nsq (O1, O2, SCR1, h))))
                           (mat n (fst (lowdin_branch K junk n nsq (O1, O2, SCR1, h)))))
                     (mat n SCR1)) ident"
    and "meq n (mm n (mat n (fst (snd (lowdin_branch K junk n nsq (O1, O2, SCR1, h)))))
                     (mat n (fst (snd (lowdin_branch K junk n nsq (O1, O2, SCR1, h))))))
               (mat n SCR1)"
proof -
  let ?V = "mat n V"
  let ?P = "mat n (fst (lowdin_branch K junk n nsq (O1, O2, SCR1, h)))"
  let ?Q = "mat n (fst (snd (lowdin_branch K junk n nsq (O1, O2, SCR1, h))))"
  let ?d1 = "\<lambda>l. 1 / sqrt (w ! l)"
  let ?d2 = "\<lambda>l. sqrt (w ! l)"
  let ?d = "\<lambda>l. w ! l"
  from ok have pos: "\<forall>j<n. 0 < w ! j"
    and VtV: "meq n (mm n (transp ?V) ?V) ident"
    and VVt: "meq n (mm n ?V (transp ?V)) ident"
    and dec: "meq n (cj n ?V (dg ?d)) (mat n SCR1)"
    by (simp_all add: eigen_ok_def)
  have sq: "sqrt (w ! l) * sqrt (w ! l) = w ! l" if "l < n" for l
  proof -
    have "0 < w ! l" using pos that by simp
    then show ?thesis by simp
  qed
  have nz: "sqrt (w ! l) \<noteq> 0" if "l < n" for l
  proof -
    have "0 < w ! l" using pos that by simp
    then show ?thesis by simp
  qed
  have P: "meq n ?P (cj n ?V (dg ?d1))"
    unfolding meq_def
  proof (intro allI impI)
    fix i j assume "i < n" "j < n"
    from lowdin_branch_entries(1)[OF eig l1 l2 l3 this]
    show "?P i j = cj n ?V (dg ?d1) i j" by (simp add: cj_dg)
  qed
  have Q: "meq n ?Q (cj n ?V (dg ?d2))"
    unfolding meq_def
  proof (intro allI impI)
    fix i j assume ij: "i < n" "j < n"
    have "?Q i j = (\<Sum>l<n. ?V i l / sqrt (w ! l) * w ! l * ?V j l)"
      by (rule lowdin_branch_entries(2)[OF eig l1 l2 l3 ij])
    also have "\<dots> = (\<Sum>l<n. ?V i l * sqrt (w ! l) * ?V j l)"
    proof (intro sum.cong refl)
      fix l assume "l \<in> {..<n}"
      then have l: "l < n" by simp
      have "?V i l / sqrt (w ! l) * w ! l = ?V i l / sqrt (w ! l) * (sqrt (w ! l) * sqrt (w ! l))"
        by (simp only: sq[OF l])
      also have "\<dots> = ?V i l * sqrt (w ! l)" by (rule div_mul_square[OF nz[OF l]])
      finally show "?V i l / sqrt (w ! l) * w ! l * ?V j l = ?V i l * sqrt (w ! l) * ?V j l"
        by simp
    qed
    finally show "?Q i j = cj n ?V (dg ?d2) i j" by (simp add: cj_dg)
  qed
  have d12: "meq n (mm n (dg ?d1) (dg ?d2)) ident"
  proof (rule meq_trans[OF dg_mm dg_one], intro allI impI)
    fix l assume "l < n"
    from nz[OF this] show "?d1 l * ?d2 l = 1" by simp
  qed
  have d22: "meq n (mm n (dg ?d2) (dg ?d2)) (dg ?d)"
  proof (rule meq_trans[OF dg_mm dg_cong], intro allI impI)
    fix l assume "l < n"
    from sq[OF this] show "?d2 l * ?d2 l = ?d l" .
  qed
  have d11: "meq n (mm n (dg ?d1) (dg ?d1)) (dg (\<lambda>l. ?d1 l * ?d1 l))"
    by (rule dg_mm)
  have d11d: "meq n (mm n (mm n (dg ?d1) (dg ?d1)) (dg ?d)) ident"
  proof -
    have a: "meq n (mm n (mm n (dg ?d1) (dg ?d1)) (dg ?d)) (mm n (dg (\<lambda>l. ?d1 l * ?d1 l)) (dg ?d))"
      by (rule meq_mm[OF d11 meq_refl])
    have b: "meq n (mm n (dg (\<lambda>l. ?d1 l * ?d1 l)) (dg ?d)) (dg (\<lambda>l. ?d1 l * ?d1 l * ?d l))"
      by (rule dg_mm)
    have c: "meq n (dg (\<lambda>l. ?d1 l * ?d1 l * ?d l)) ident"
    proof (rule dg_one, intro allI impI)
      fix l assume l: "l < n"
      have "?d1 l * ?d1 l * ?d l = ?d1 l * ?d1 l * (sqrt (w ! l) * sqrt (w ! l))"
        by (simp only: sq[OF l])
      also have "\<dots> = 1" by (rule inverse_square_mul[OF nz[OF l]])
      finally show "?d1 l * ?d1 l * ?d l = 1" .
    qed
    show ?thesis by (rule meq_trans[OF a meq_trans[OF b c]])
  qed
  show "meq n (mm n ?P ?Q) ident"
  proof -
    have a: "meq n (mm n ?P ?Q) (mm n (cj n ?V (dg ?d1)) (cj n ?V (dg ?d2)))"
      by (rule meq_mm[OF P Q])
    have b: "meq n (mm n (cj n ?V (dg ?d1)) (cj n ?V (dg ?d2))) (cj n ?V (mm n (dg ?d1) (dg ?d2)))"
      by (rule cj_mm[OF VtV])
    have c: "meq n (cj n ?V (mm n (dg ?d1) (dg ?d2))) (cj n ?V ident)"
      by (rule cj_cong[OF d12])
    show ?thesis by (rule meq_trans[OF a meq_trans[OF b meq_trans[OF c cj_ident[OF VVt]]]])
  qed
  show "meq n (mm n ?Q ?Q) (mat n SCR1)"
  proof -
    have a: "meq n (mm n ?Q ?Q) (mm n (cj n ?V (dg ?d2)) (cj n ?V (dg ?d2)))"
      by (rule meq_mm[OF Q Q])
    have b: "meq n (mm n (cj n ?V (dg ?d2)) (cj n ?V (dg ?d2))) (cj n ?V (mm n (dg ?d2) (dg ?d2)))"
      by (rule cj_mm[OF VtV])
    have c: "meq n (cj n ?V (mm n (dg ?d2) (dg ?d2))) (cj n ?V (dg ?d))"
      by (rule cj_cong[OF d22])
    show ?thesis by (rule meq_trans[OF a meq_trans[OF b meq_trans[OF c dec]]])
  qed
  show "meq n (mm n (mm n ?P ?P) (mat n SCR1)) ident"
  proof -
    have a: "meq n (mm n ?P ?P) (cj n ?V (mm n (dg ?d1) (dg ?d1)))"
      by (rule meq_trans[OF meq_mm[OF P P] cj_mm[OF VtV]])
    have b: "meq n (mm n (mm n ?P ?P) (mat n SCR1))
        (mm n (cj n ?V (mm n (dg ?d1) (dg ?d1))) (cj n ?V (dg ?d)))"
      by (rule meq_mm[OF a meq_sym[OF dec]])
    have c: "meq n (mm n (cj n ?V (mm n (dg ?d1) (dg ?d1))) (cj n ?V (dg ?d)))
        (cj n ?V (mm n (mm n (dg ?d1) (dg ?d1)) (dg ?d)))"
      by (rule cj_mm[OF VtV])
    have d: "meq n (cj n ?V (mm n (mm n (dg ?d1) (dg ?d1)) (dg ?d))) (cj n ?V ident)"
      by (rule cj_cong[OF d11d])
    show ?thesis by (rule meq_trans[OF b meq_trans[OF c meq_trans[OF d cj_ident[OF VVt]]]])
  qed
qed

lemma mm_2: "mm 2 A B i j = A i 0 * B 0 j + A i (Suc 0) * B (Suc 0) j"
  by (simp add: mm_def numeral_2_eq_2)

lemma all_less_2: "(\<forall>i<2. P i) = (P 0 \<and> P (Suc 0))"
  by (auto simp add: less_2_cases_iff)

lemma ex_cholesky_pre:
  "orthoType ex_cholesky = CHOLESKY \<and>
   load (memManager ex_cholesky) (overlap ex_cholesky) = Some ex_overlap \<and>
   length ex_overlap = nBasis ex_cholesky * nBasis ex_cholesky \<and>
   nSQ ex_cholesky = nBasis ex_cholesky * nBasis ex_cholesky \<and>
   spd (nBasis ex_cholesky) (mat (nBasis ex_cholesky) ex_overlap)"
  using ex_state_pre by (simp add: ex_cholesky_def)

lemma ex_cholesky_ortho1:
  "\<exists>s' O1 O2. computeOrtho (lapack eig) junk ex_cholesky = Some s' \<and>
     load (memManager s') (ortho1 s') = Some O1 \<and> load (memManager s') (ortho2 s') = Some O2 \<and>
     mat 2 O1 0 0 = 1 \<and> mat 2 O1 0 (Suc 0) = 0"
proof -
  have n: "nBasis ex_cholesky = 2" by (simp add: ex_cholesky_def ex_state_def)
  from ex_cholesky_pre have pre: "load (memManager ex_cholesky) (overlap ex_cholesky) = Some ex_overlap"
    "length ex_overlap = nBasis ex_cholesky * nBasis ex_cholesky"
    "nSQ ex_cholesky = nBasis ex_cholesky * nBasis ex_cholesky"
    "spd (nBasis ex_cholesky) (mat (nBasis ex_cholesky) ex_overlap)" by simp_all
  from computeOrtho_spd[OF pre, of eig junk]
  obtain s' O1 O2 L where r: "computeOrtho (lapack eig) junk ex_cholesky = Some s'"
      "load (memManager s') (ortho1 s') = Some O1" "load (memManager s') (ortho2 s') = Some O2"
    and L: "lower 2 L" "\<forall>i<2. 0 < L i i" "meq 2 (mm 2 L (transp L)) (mat 2 ex_overlap)"
    and O1: "meq 2 (mat 2 O1) (tri_inv L)"
    unfolding n by blast
  from chol2_unique[OF L] have "L 0 0 = 1" by simp
  then have "tri_inv L 0 0 = 1" by (simp add: tri_inv_diag)
  moreover have "tri_inv L 0 (Suc 0) = 0" by (simp add: tri_inv_upper)
  ultimately have "mat 2 O1 0 0 = 1 \<and> mat 2 O1 0 (Suc 0) = 0"
    using O1 by (simp add: meq_def)
  with r show ?thesis by (intro exI[of _ s'] exI[of _ O1] exI[of _ O2]) simp
qed

text \<open>
  With \<open>orthoType_\<close> set to \<open>CHOLESKY\<close> and the positive-definite overlap
  \<open>[[1, 1/2], [1/2, 1]]\<close>, entry \<open>(0, 1)\<close> of \<open>ortho1 * ortho1 * S\<close> is \<open>1/2\<close>, not
  \<open>0\<close>: \<open>ortho1\<close> is the inverse of the Cholesky factor, which is not symmetric.
\<close>

theorem computeOrtho_square_counterexample:
  "orthoType ex_cholesky = CHOLESKY \<and>
   load (memManager ex_cholesky) (overlap ex_cholesky) = Some ex_overlap \<and>
   spd 2 (mat 2 ex_overlap) \<and>
   (\<forall>eig junk. \<exists>s' O1. computeOrtho (lapack eig) junk ex_cholesky = Some s' \<and>
      load (memManager s') (ortho1 s') = Some O1 \<and>
      mm 2 (mm 2 (mat 2 O1) (mat 2 O1)) (mat 2 ex_overlap) 0 (Suc 0) = 1 / 2 \<and>
      ident 0 (Suc 0) = 0 \<and>
      \<not> meq 2 (mm 2 (mm 2 (mat 2 O1) (mat 2 O1)) (mat 2 ex_overlap)) ident)"
proof (intro conjI allI)
  show "orthoType ex_cholesky = CHOLESKY" using ex_cholesky_pre by simp
  show "load (memManager ex_cholesky) (overlap ex_cholesky) = Some ex_overlap"
    using ex_cholesky_pre by simp
  show "spd 2 (mat 2 ex_overlap)" by (rule ex_overlap_spd)
  fix eig junk
  from ex_cholesky_ortho1[of eig junk]
  obtain s' O1 O2 where r: "computeOrtho (lapack eig) junk ex_cholesky = Some s'"
      "load (memManager s') (ortho1 s') = Some O1"
    and a: "mat 2 O1 0 0 = 1" "mat 2 O1 0 (Suc 0) = 0" by blast
  have S: "mat 2 ex_overlap 0 (Suc 0) = 1 / 2" by (simp add: mat_def ex_overlap_def)
  have v: "mm 2 (mm 2 (mat 2 O1) (mat 2 O1)) (mat 2 ex_overlap) 0 (Suc 0) = 1 / 2"
    by (simp add: mm_2 a S)
  have i: "ident 0 (Suc 0) = 0" by (simp add: ident_def)
  have "\<not> meq 2 (mm 2 (mm 2 (mat 2 O1) (mat 2 O1)) (mat 2 ex_overlap)) ident"
  proof
    assume "meq 2 (mm 2 (mm 2 (mat 2 O1) (mat 2 O1)) (mat 2 ex_overlap)) ident"
    then have "mm 2 (mm 2 (mat 2 O1) (mat 2 O1)) (mat 2 ex_overlap) 0 (Suc 0) = ident 0 (Suc 0)"
      by (simp add: meq_def)
    with v i show False by simp
  qed
  with r v i show "\<exists>s' O1. computeOrtho (lapack eig) junk ex_cholesky = Some s' \<and>
      load (memManager s') (ortho1 s') = Some O1 \<and>
      mm 2 (mm 2 (mat 2 O1) (mat 2 O1)) (mat 2 ex_overlap) 0 (Suc 0) = 1 / 2 \<and>
      ident 0 (Suc 0) = 0 \<and>
      \<not> meq 2 (mm 2 (mm 2 (mat 2 O1) (mat 2 O1)) (mat 2 ex_overlap)) ident"
    by (intro exI[of _ s'] exI[of _ O1]) simp
qed

text \<open>
  Claim C2, as the code has it. With \<open>orthoType_\<close> set to \<open>CHOLESKY\<close> and a symmetric
  positive-definite overlap, the pair \<open>computeOrtho\<close> builds satisfies
  \<open>ortho1 * ortho2 = I\<close> and \<open>ortho1\<^sup>T * ortho1 * S = I\<close>. The Lowdin algorithm (the
  Lowdin branch of \<open>computeOrtho\<close>), run with an eigensolver that returns an orthogonal
  \<open>V\<close> and positive \<open>w\<close> with \<open>V * diag(w) * V\<^sup>T = S\<close>, builds a pair with
  \<open>ortho1 * ortho2 = I\<close> and \<open>ortho1 * ortho1 * S = I\<close>. All identities are in exact
  arithmetic.
\<close>

theorem computeOrtho_round_trip:
  "(orthoType s = CHOLESKY \<and>
    load (memManager s) (overlap s) = Some Sov \<and> length Sov = nBasis s * nBasis s \<and>
    nSQ s = nBasis s * nBasis s \<and> spd (nBasis s) (mat (nBasis s) Sov) \<longrightarrow>
    (\<exists>s' O1 O2. computeOrtho (lapack eig) junk s = Some s' \<and>
       load (memManager s') (ortho1 s') = Some O1 \<and> load (memManager s') (ortho2 s') = Some O2 \<and>
       meq (nBasis s) (mm (nBasis s) (mat (nBasis s) O1) (mat (nBasis s) O2)) ident \<and>
       meq (nBasis s) (mm (nBasis s)
           (mm (nBasis s) (transp (mat (nBasis s) O1)) (mat (nBasis s) O1))
           (mat (nBasis s) Sov)) ident)) \<and>
   (HermetianEigen K (CHR ''V'') (CHR ''U'') n SCR1 n (map junk [0..<n]) = (INFO, V, w) \<and>
    eigen_ok n SCR1 V w \<and> n * n \<le> length P \<and> n * n \<le> length Q \<and> n * n \<le> nsq \<longrightarrow>
    (case lowdin_branch K junk n nsq (P, Q, SCR1, h) of (O1, O2, r) \<Rightarrow>
       meq n (mm n (mat n O1) (mat n O2)) ident \<and>
       meq n (mm n (mm n (mat n O1) (mat n O1)) (mat n SCR1)) ident))"
proof (intro conjI impI)
  assume a: "orthoType s = CHOLESKY \<and>
    load (memManager s) (overlap s) = Some Sov \<and> length Sov = nBasis s * nBasis s \<and>
    nSQ s = nBasis s * nBasis s \<and> spd (nBasis s) (mat (nBasis s) Sov)"
  define m where "m = nBasis s"
  from a have ld: "load (memManager s) (overlap s) = Some Sov"
    and len: "length Sov = nBasis s * nBasis s" and sq: "nSQ s = nBasis s * nBasis s"
    and spd: "spd (nBasis s) (mat (nBasis s) Sov)" by simp_all
  from computeOrtho_spd[OF ld len sq spd, of eig junk]
  obtain s' O1 O2 L where r: "computeOrtho (lapack eig) junk s = Some s'"
    "load (memManager s') (ortho1 s') = Some O1" "load (memManager s') (ortho2 s') = Some O2"
    and L: "lower m L" "\<forall>i<m. 0 < L i i" "meq m (mm m L (transp L)) (mat m Sov)"
    and O2: "meq m (mat m O2) L"
    and O1: "meq m (mat m O1) (tri_inv L)"
    unfolding m_def by blast
  have nz: "\<forall>i<m. L i i \<noteq> 0" using L(2) by auto
  have XL: "meq m (mm m (tri_inv L) L) ident" by (rule tri_inv_left[OF L(1) nz])
  have LX: "meq m (mm m L (tri_inv L)) ident" by (rule tri_inv_right[OF L(1) nz])
  have one: "meq m (mm m (mat m O1) (mat m O2)) ident"
    by (rule meq_trans[OF meq_mm[OF O1 O2] XL])
  have two: "meq m (mm m (mm m (transp (mat m O1)) (mat m O1)) (mat m Sov)) ident"
    by (rule meq_trans[OF meq_mm[OF meq_mm[OF meq_transp[OF O1] O1] meq_refl]
          gram_inverse_left[OF L(3) XL LX]])
  from r one two
  show "\<exists>s' O1 O2. computeOrtho (lapack eig) junk s = Some s' \<and>
       load (memManager s') (ortho1 s') = Some O1 \<and> load (memManager s') (ortho2 s') = Some O2 \<and>
       meq (nBasis s) (mm (nBasis s) (mat (nBasis s) O1) (mat (nBasis s) O2)) ident \<and>
       meq (nBasis s) (mm (nBasis s)
           (mm (nBasis s) (transp (mat (nBasis s) O1)) (mat (nBasis s) O1))
           (mat (nBasis s) Sov)) ident"
    unfolding m_def by (intro exI[of _ s'] exI[of _ O1] exI[of _ O2]) simp
next
  assume b: "HermetianEigen K (CHR ''V'') (CHR ''U'') n SCR1 n (map junk [0..<n]) = (INFO, V, w) \<and>
    eigen_ok n SCR1 V w \<and> n * n \<le> length P \<and> n * n \<le> length Q \<and> n * n \<le> nsq"
  then have eig: "HermetianEigen K (CHR ''V'') (CHR ''U'') n SCR1 n (map junk [0..<n]) = (INFO, V, w)"
    and ok: "eigen_ok n SCR1 V w" and l1: "n * n \<le> length P" and l2: "n * n \<le> length Q"
    and l3: "n * n \<le> nsq" by simp_all
  from lowdin_branch_round_trip(1,2)[OF eig l1 l2 l3 ok, of h]
  show "case lowdin_branch K junk n nsq (P, Q, SCR1, h) of (O1, O2, r) \<Rightarrow>
       meq n (mm n (mat n O1) (mat n O2)) ident \<and>
       meq n (mm n (mm n (mat n O1) (mat n O1)) (mat n SCR1)) ident"
    by (simp add: case_prod_beta)
qed

lemma ex_eigen_ok: "eigen_ok 2 ex_diag [1, 0, 0, 1] [4, 9]"
  by (simp add: eigen_ok_def ex_diag_def meq_def all_less_2 cj_def mm_2 dg_def mat_def transp_def
        ident_def)

theorem computeOrtho_round_trip_witness:
  "orthoType ex_cholesky = CHOLESKY \<and>
   (\<forall>eig junk. \<exists>s' O1 O2. computeOrtho (lapack eig) junk ex_cholesky = Some s' \<and>
       load (memManager s') (ortho1 s') = Some O1 \<and> load (memManager s') (ortho2 s') = Some O2 \<and>
       meq 2 (mm 2 (mat 2 O1) (mat 2 O2)) ident \<and>
       meq 2 (mm 2 (mm 2 (transp (mat 2 O1)) (mat 2 O1)) (mat 2 ex_overlap)) ident) \<and>
   (\<forall>junk h. case lowdin_branch (lapack ex_eig) junk 2 4
        (replicate 4 0, replicate 4 0, ex_diag, h) of (O1, O2, r) \<Rightarrow>
       meq 2 (mm 2 (mat 2 O1) (mat 2 O2)) ident \<and>
       meq 2 (mm 2 (mm 2 (mat 2 O1) (mat 2 O1)) (mat 2 ex_diag)) ident)"
proof (intro conjI allI)
  show "orthoType ex_cholesky = CHOLESKY" using ex_cholesky_pre by simp
next
  fix eig junk
  have n: "nBasis ex_cholesky = 2" by (simp add: ex_cholesky_def ex_state_def)
  have "\<exists>s' O1 O2. computeOrtho (lapack eig) junk ex_cholesky = Some s' \<and>
       load (memManager s') (ortho1 s') = Some O1 \<and> load (memManager s') (ortho2 s') = Some O2 \<and>
       meq (nBasis ex_cholesky) (mm (nBasis ex_cholesky) (mat (nBasis ex_cholesky) O1)
          (mat (nBasis ex_cholesky) O2)) ident \<and>
       meq (nBasis ex_cholesky) (mm (nBasis ex_cholesky)
           (mm (nBasis ex_cholesky) (transp (mat (nBasis ex_cholesky) O1)) (mat (nBasis ex_cholesky) O1))
           (mat (nBasis ex_cholesky) ex_overlap)) ident"
    by (rule computeOrtho_round_trip[THEN conjunct1, THEN mp, OF ex_cholesky_pre])
  then show "\<exists>s' O1 O2. computeOrtho (lapack eig) junk ex_cholesky = Some s' \<and>
       load (memManager s') (ortho1 s') = Some O1 \<and> load (memManager s') (ortho2 s') = Some O2 \<and>
       meq 2 (mm 2 (mat 2 O1) (mat 2 O2)) ident \<and>
       meq 2 (mm 2 (mm 2 (transp (mat 2 O1)) (mat 2 O1)) (mat 2 ex_overlap)) ident"
    unfolding n .
next
  fix junk :: "nat \<Rightarrow> real" and h :: "real heap"
  have e: "HermetianEigen (lapack ex_eig) (CHR ''V'') (CHR ''U'') 2 ex_diag 2 (map junk [0..<2]) =
      (0, [1, 0, 0, 1], [4, 9])"
    by (simp add: lapack_def ex_eig_def)
  have pre: "HermetianEigen (lapack ex_eig) (CHR ''V'') (CHR ''U'') 2 ex_diag 2 (map junk [0..<2]) =
      (0, [1, 0, 0, 1], [4, 9]) \<and>
    eigen_ok 2 ex_diag [1, 0, 0, 1] [4, 9] \<and> 2 * 2 \<le> length (replicate 4 (0::real)) \<and>
    2 * 2 \<le> length (replicate 4 (0::real)) \<and> (2::nat) * 2 \<le> 4"
    using e ex_eigen_ok by simp
  show "case lowdin_branch (lapack ex_eig) junk 2 4
        (replicate 4 0, replicate 4 0, ex_diag, h) of (O1, O2, r) \<Rightarrow>
       meq 2 (mm 2 (mat 2 O1) (mat 2 O2)) ident \<and>
       meq 2 (mm 2 (mm 2 (mat 2 O1) (mat 2 O1)) (mat 2 ex_diag)) ident"
    by (rule computeOrtho_round_trip[THEN conjunct2, THEN mp, OF pre])
qed

end
